theory Spec2Isabelle
  imports Complex_Main
begin

section \<open>compressor/utils.py\<close>

text \<open>
  A path is looked at through what \<^verbatim>\<open>os.path.getsize\<close> finds there: a file of \<open>n\<close>
  bytes, no file (\<^verbatim>\<open>FileNotFoundError\<close>), or a path that cannot be examined (a component
  that is not a directory, a directory without search permission: \<^verbatim>\<open>NotADirectoryError\<close>,
  \<^verbatim>\<open>PermissionError\<close> and the other subclasses of \<^verbatim>\<open>OSError\<close>).
\<close>

datatype stat = File nat | Missing | Inaccessible

datatype py_error = FileNotFoundError | OtherOSError | ZeroDivisionError

definition getsize :: "stat \<Rightarrow> py_error + nat" where
  "getsize file_path =
     (case file_path of
        File n \<Rightarrow> Inr n
      | Missing \<Rightarrow> Inl FileNotFoundError
      | Inaccessible \<Rightarrow> Inl OtherOSError)"

text \<open>
  \<^verbatim>\<open>try: return os.path.getsize(file_path) / (1024 * 1024)\<close>
  \<^verbatim>\<open>except FileNotFoundError: return 0\<close>

  Sizes in megabytes are Python floats; they are modelled as reals. A byte count below
  \<open>2^53\<close> divided by \<open>2^20\<close> is exact in a double, so the quotient is the real quotient.
\<close>

definition get_file_size_mb :: "stat \<Rightarrow> py_error + real" where
  "get_file_size_mb file_path =
     (case getsize file_path of
        Inr n \<Rightarrow> Inr (real n / (1024 * 1024))
      | Inl FileNotFoundError \<Rightarrow> Inr 0
      | Inl e \<Rightarrow> Inl e)"

text \<open>
  The product of two floats. A double has a significand of 53 bits and Python rounds the
  exact product to the nearest double, ties to the even significand; the exponent range
  is not modelled (no overflow, no subnormal numbers).
\<close>

definition round_half_even :: "real \<Rightarrow> int" where
  "round_half_even z =
     (let f = \<lfloor>z\<rfloor>; d = z - of_int f in
      if d < 1 / 2 then f else if d > 1 / 2 then f + 1 else if even f then f else f + 1)"

definition round_double :: "real \<Rightarrow> real" where
  "round_double x =
     (if x = 0 then 0
      else (let ulp = 2 powr (of_int \<lfloor>log 2 \<bar>x\<bar>\<rfloor> - 52)
            in of_int (round_half_even (x / ulp)) * ulp))"

definition float_mul :: "real \<Rightarrow> real \<Rightarrow> real" where
  "float_mul a b = round_double (a * b)"

text \<open>
  A directory is the map from the names in it to the byte sizes of the files.
  \<^verbatim>\<open>copy_file\<close> catches every exception of \<^verbatim>\<open>shutil.copy2\<close> and returns a flag:
  with no source file that can be read nothing is written.
\<close>

type_synonym 'f directory = "'f \<rightharpoonup> nat"

definition copy_file :: "stat \<Rightarrow> 'f \<Rightarrow> 'f directory \<Rightarrow> 'f directory" where
  "copy_file src dst dir = (case src of File n \<Rightarrow> dir(dst \<mapsto> n) | _ \<Rightarrow> dir)"

text \<open>A path of a directory, as the program finds it.\<close>

definition file_at :: "'f directory \<Rightarrow> 'f \<Rightarrow> stat" where
  "file_at dir p = (case dir p of None \<Rightarrow> Missing | Some n \<Rightarrow> File n)"

text \<open>\<^verbatim>\<open>if p.exists(): p.unlink()\<close>\<close>

definition unlink_if_exists :: "'f \<Rightarrow> 'f directory \<Rightarrow> 'f directory" where
  "unlink_if_exists p dir = (if dir p \<noteq> None then dir(p := None) else dir)"

section \<open>compressor/strategy.py\<close>

record params =
  dpi :: int
  bg_downsample :: int
  jpeg2000_encoder :: "string option"

record strategy =
  name :: string
  params_sequence :: "params list"

definition preset :: "int \<Rightarrow> int \<Rightarrow> string \<Rightarrow> params" where
  "preset d b e = \<lparr>dpi = d, bg_downsample = b, jpeg2000_encoder = Some e\<rparr>"

definition STRATEGIES :: "nat \<rightharpoonup> strategy" where
  "STRATEGIES =
     [1 \<mapsto> \<lparr>name = ''High Quality Compression'',
             params_sequence =
               [preset 300 1 ''openjpeg'', preset 300 2 ''openjpeg'', preset 300 3 ''grok'',
                preset 250 3 ''openjpeg'', preset 200 4 ''grok'']\<rparr>,
      2 \<mapsto> \<lparr>name = ''Balanced Compression'',
             params_sequence =
               [preset 300 2 ''openjpeg'', preset 300 3 ''grok'', preset 300 4 ''openjpeg'',
                preset 250 4 ''grok'', preset 200 4 ''openjpeg'', preset 150 5 ''grok'']\<rparr>,
      3 \<mapsto> \<lparr>name = ''Extreme compression'',
             params_sequence =
               [preset 200 3 ''grok'', preset 200 4 ''grok'', preset 200 5 ''openjpeg'',
                preset 150 5 ''grok'', preset 110 6 ''grok'']\<rparr>]"

definition determine_tier :: "real \<Rightarrow> nat" where
  "determine_tier size_mb =
     (if 2 \<le> size_mb \<and> size_mb < 10 then 1
      else if 10 \<le> size_mb \<and> size_mb < 50 then 2
      else if size_mb \<ge> 50 then 3
      else 0)"

text \<open>
  The files a search writes into its temporary directory, one per call of
  \<^verbatim>\<open>reconstruct_pdf\<close>: \<^verbatim>\<open>output_<stem>_first.pdf\<close>, \<^verbatim>\<open>output_<stem>_last.pdf\<close>,
  \<^verbatim>\<open>output_<stem>_back_<idx>.pdf\<close>, and \<^verbatim>\<open>output_<stem>_<i>.pdf\<close> or
  \<^verbatim>\<open>compressed_<stem>_<i>.pdf\<close>. No two calls of one search share a file.
\<close>

datatype temp_file = First | Last | Back nat | Numbered nat

text \<open>
  One call of \<^verbatim>\<open>pipeline.reconstruct_pdf\<close>, an external tool behind
  \<^verbatim>\<open>utils.run_command\<close>: it returns \<^verbatim>\<open>False\<close>, or returns \<^verbatim>\<open>True\<close> and leaves the
  output path in some state, or an exception escapes it.
\<close>

datatype reconstruction = Raises | ReturnsFalse | ReturnsTrue stat

type_synonym reconstruct_pdf = "params \<Rightarrow> temp_file \<Rightarrow> reconstruction"

text \<open>
  The external tools of one document: \<^verbatim>\<open>deconstruct_pdf_to_images\<close> (whether it
  returns a non-empty list of images at the given dpi), \<^verbatim>\<open>analyze_images_to_hocr\<close>
  (whether it returns a path) and \<^verbatim>\<open>reconstruct_pdf\<close>.
\<close>

record tools =
  deconstruct_pdf_to_images :: "int \<Rightarrow> bool"
  analyze_images_to_hocr :: bool
  reconstruct :: reconstruct_pdf

text \<open>
  What a search returns: an exception that escapes it, \<^verbatim>\<open>(False, None)\<close>, or
  \<^verbatim>\<open>(True, final_path)\<close> after \<^verbatim>\<open>copy_file(attempt, final_path)\<close>; in the last case
  the attempt's file is kept with the state the copy finds it in.
\<close>

datatype search_result = Raised | Failed | Succeeded temp_file stat

type_synonym call = "params \<times> temp_file"

definition threshold_factor :: real where
  "threshold_factor = 1.5"

text \<open>
  The backtracking loop \<^verbatim>\<open>for idx in range(last_index - 1, -1, -1)\<close>: the result is
  \<^verbatim>\<open>chosen_path\<close> when the loop ends or breaks, with the calls it made.
\<close>

fun backtrack ::
  "reconstruct_pdf \<Rightarrow> real \<Rightarrow> params list \<Rightarrow> nat list \<Rightarrow> temp_file \<times> stat
     \<Rightarrow> (temp_file \<times> stat) option \<times> call list" where
  "backtrack rp target_size_mb seq [] chosen_path = (Some chosen_path, [])"
| "backtrack rp target_size_mb seq (idx # idxs) chosen_path =
     (let params = seq ! idx; test_output = Back idx in
      case rp params test_output of
        Raises \<Rightarrow> (None, [(params, test_output)])
      | ReturnsFalse \<Rightarrow> (Some chosen_path, [(params, test_output)])
      | ReturnsTrue st \<Rightarrow>
          (case get_file_size_mb st of
             Inl e \<Rightarrow> (None, [(params, test_output)])
           | Inr test_size \<Rightarrow>
               if test_size \<le> target_size_mb
               then (let (r, cs) = backtrack rp target_size_mb seq idxs (test_output, st)
                     in (r, (params, test_output) # cs))
               else (Some chosen_path, [(params, test_output)])))"

text \<open>
  \<^verbatim>\<open>for i in range(1, len(seq))\<close> of \<^verbatim>\<open>run_iterative_compression\<close> and
  \<^verbatim>\<open>for i, params in enumerate(aggressive_params)\<close> of \<^verbatim>\<open>run_aggressive_compression\<close>
  have the same body: a failed or raising attempt continues with the next one, the first
  attempt within the target returns.
\<close>

fun sequential ::
  "reconstruct_pdf \<Rightarrow> real \<Rightarrow> (nat \<times> params) list \<Rightarrow> search_result \<times> call list" where
  "sequential rp target_size_mb [] = (Failed, [])"
| "sequential rp target_size_mb ((i, params) # rest) =
     (let output_pdf_path = Numbered i;
          continue = (let (r, cs) = sequential rp target_size_mb rest
                      in (r, (params, output_pdf_path) # cs)) in
      case rp params output_pdf_path of
        Raises \<Rightarrow> continue
      | ReturnsFalse \<Rightarrow> continue
      | ReturnsTrue st \<Rightarrow>
          (case get_file_size_mb st of
             Inl e \<Rightarrow> continue
           | Inr result_size_mb \<Rightarrow>
               if result_size_mb \<le> target_size_mb
               then (Succeeded output_pdf_path st, [(params, output_pdf_path)])
               else continue))"

text \<open>
  Lines 87 to 172 of \<^verbatim>\<open>run_iterative_compression\<close>: the first attempt, the jump to the
  last parameters with backtracking, and the attempts in order.
\<close>

definition attempts :: "reconstruct_pdf \<Rightarrow> real \<Rightarrow> params list \<Rightarrow> search_result \<times> call list" where
  "attempts rp target_size_mb seq =
     (let first_params = seq ! 0;
          first_call = (first_params, First);
          in_order = (let (r, cs) = sequential rp target_size_mb
                                      (map (\<lambda>i. (i, seq ! i)) [1..<length seq])
                      in (r, first_call # cs)) in
      case rp first_params First of
        Raises \<Rightarrow> (Raised, [first_call])
      | ReturnsFalse \<Rightarrow> in_order
      | ReturnsTrue st \<Rightarrow>
          (case get_file_size_mb st of
             Inl e \<Rightarrow> (Raised, [first_call])
           | Inr result_size_mb \<Rightarrow>
               if result_size_mb \<le> target_size_mb then (Succeeded First st, [first_call])
               else if result_size_mb > float_mul target_size_mb threshold_factor then
                 (let last_index = length seq - 1;
                      last_params = seq ! last_index;
                      last_call = (last_params, Last) in
                  case rp last_params Last of
                    Raises \<Rightarrow> (Raised, [first_call, last_call])
                  | ReturnsFalse \<Rightarrow> (Failed, [first_call, last_call])
                  | ReturnsTrue st' \<Rightarrow>
                      (case get_file_size_mb st' of
                         Inl e \<Rightarrow> (Raised, [first_call, last_call])
                       | Inr last_size \<Rightarrow>
                           if last_size > target_size_mb then (Failed, [first_call, last_call])
                           else
                             (case backtrack rp target_size_mb seq (rev [0..<last_index])
                                     (Last, st') of
                                (None, cs) \<Rightarrow> (Raised, first_call # last_call # cs)
                              | (Some (chosen_path, st''), cs) \<Rightarrow>
                                  (Succeeded chosen_path st'', first_call # last_call # cs))))
               else in_order))"

text \<open>
  The temporary directory of a search when the search is over: never created, removed by
  \<^verbatim>\<open>utils.cleanup_directory\<close>, or left on disk.
\<close>

datatype workspace = NotCreated | Deleted | Kept

text \<open>The \<^verbatim>\<open>finally\<close> block of the three functions that own a temporary directory.\<close>

definition release :: "bool \<Rightarrow> workspace" where
  "release keep_temp_on_failure = (if keep_temp_on_failure then Kept else Deleted)"

text \<open>
  The files of the output directory: \<^verbatim>\<open><stem>_compressed.pdf\<close>, the copy of a small
  original, and for the part \<open>n\<close> of a split document \<^verbatim>\<open><stem>_temp_part<n>_compressed.pdf\<close>
  and \<^verbatim>\<open><stem>_part<n>.pdf\<close>. The four names differ for every stem and number.
\<close>

datatype out_file = Compressed | Original | PartCompressed int | Part int

text \<open>
  What a search has done when it is over: what it returned, the calls of
  \<^verbatim>\<open>reconstruct_pdf\<close> in order, its temporary directory and the output directory.
\<close>

record run =
  result :: search_result
  calls :: "call list"
  temp_dir :: workspace
  output_dir :: "out_file directory"

text \<open>
  The lines before a successful \<^verbatim>\<open>return True, final_path\<close>:
  \<^verbatim>\<open>utils.copy_file(<attempt>, final_path)\<close>.
\<close>

definition save_result :: "search_result \<Rightarrow> out_file \<Rightarrow> out_file directory \<Rightarrow> out_file directory" where
  "save_result r final_path dir =
     (case r of Succeeded chosen st \<Rightarrow> copy_file st final_path dir | _ \<Rightarrow> dir)"

definition run_iterative_compression ::
  "tools \<Rightarrow> stat \<Rightarrow> out_file \<Rightarrow> out_file directory \<Rightarrow> real \<Rightarrow> bool \<Rightarrow> run" where
  "run_iterative_compression t pdf_path final_path dir target_size_mb keep_temp_on_failure =
     (case get_file_size_mb pdf_path of
        Inl e \<Rightarrow> \<lparr>result = Raised, calls = [], temp_dir = NotCreated, output_dir = dir\<rparr>
      | Inr original_size_mb \<Rightarrow>
          (let tier = determine_tier original_size_mb in
           if tier = 0
           then \<lparr>result = Failed, calls = [], temp_dir = NotCreated, output_dir = dir\<rparr>
           else
             (case STRATEGIES tier of
                None \<Rightarrow> \<lparr>result = Raised, calls = [], temp_dir = NotCreated, output_dir = dir\<rparr>
              | Some strategy \<Rightarrow>
                  (let max_dpi = Max (set (map dpi (params_sequence strategy)));
                       finally = release keep_temp_on_failure in
                   if \<not> deconstruct_pdf_to_images t max_dpi
                   then \<lparr>result = Failed, calls = [], temp_dir = finally, output_dir = dir\<rparr>
                   else if \<not> analyze_images_to_hocr t
                   then \<lparr>result = Failed, calls = [], temp_dir = finally, output_dir = dir\<rparr>
                   else
                     (let (r, cs) = attempts (reconstruct t) target_size_mb
                                      (params_sequence strategy)
                      in \<lparr>result = r, calls = cs, temp_dir = finally,
                          output_dir = save_result r final_path dir\<rparr>)))))"

definition aggressive_params :: "params list" where
  "aggressive_params =
     [\<lparr>dpi = 150, bg_downsample = 4, jpeg2000_encoder = None\<rparr>,
      \<lparr>dpi = 150, bg_downsample = 5, jpeg2000_encoder = None\<rparr>,
      \<lparr>dpi = 120, bg_downsample = 3, jpeg2000_encoder = None\<rparr>,
      \<lparr>dpi = 100, bg_downsample = 2, jpeg2000_encoder = None\<rparr>]"

definition run_aggressive_compression ::
  "tools \<Rightarrow> out_file \<Rightarrow> out_file directory \<Rightarrow> real \<Rightarrow> bool \<Rightarrow> run" where
  "run_aggressive_compression t final_path dir target_size_mb keep_temp_on_failure =
     (let max_dpi = Max (set (map dpi aggressive_params));
          finally = release keep_temp_on_failure in
      if \<not> deconstruct_pdf_to_images t max_dpi
      then \<lparr>result = Failed, calls = [], temp_dir = finally, output_dir = dir\<rparr>
      else if \<not> analyze_images_to_hocr t
      then \<lparr>result = Failed, calls = [], temp_dir = finally, output_dir = dir\<rparr>
      else
        (let (r, cs) = sequential (reconstruct t) target_size_mb
                         (zip [0..<length aggressive_params] aggressive_params)
         in \<lparr>result = r, calls = cs, temp_dir = finally,
             output_dir = save_result r final_path dir\<rparr>))"

section \<open>compressor/splitter.py\<close>

definition calculate_split_strategy :: "real \<Rightarrow> int \<Rightarrow> int" where
  "calculate_split_strategy total_size_mb max_splits =
     (let estimated_chunk_size = 25;
          initial_k = min max_splits \<lceil>total_size_mb / estimated_chunk_size\<rceil>
      in if initial_k < 2 then 2 else initial_k)"

record args =
  target_size :: real
  max_splits :: int
  keep_temp_on_failure :: bool
  allow_splitting :: bool
  copy_small_files :: bool

text \<open>
  \<^verbatim>\<open>split_pdf\<close> runs qpdf on a page range and returns its flag; here it is given the
  number of the part, the first and the last page.
\<close>

type_synonym split_pdf = "int \<Rightarrow> int \<Rightarrow> int \<Rightarrow> bool"

text \<open>
  Phase 1 of \<^verbatim>\<open>try_split_and_compress\<close>, the loop \<^verbatim>\<open>for i in range(k)\<close>: \<open>None\<close> is
  the \<^verbatim>\<open>return False\<close> of a failed split, and \<^verbatim>\<open>temp_split_files\<close> holds each part as the
  page range it was cut from.
\<close>

fun split_phase :: "split_pdf \<Rightarrow> int \<Rightarrow> int \<Rightarrow> int list \<Rightarrow> (int \<times> int) list option" where
  "split_phase sp pages_per_split total_pages [] = Some []"
| "split_phase sp pages_per_split total_pages (i # is) =
     (let start_page = i * pages_per_split + 1;
          end_page = min ((i + 1) * pages_per_split) total_pages in
      if start_page > total_pages then Some []
      else if \<not> sp (i + 1) start_page end_page then None
      else map_option ((#) (start_page, end_page))
             (split_phase sp pages_per_split total_pages is))"

text \<open>The cleanup loop \<^verbatim>\<open>for success_file in split_files\<close>.\<close>

definition clean_up :: "out_file list \<Rightarrow> out_file directory \<Rightarrow> out_file directory" where
  "clean_up split_files dir = fold unlink_if_exists split_files dir"

text \<open>
  Phase 2, the loop \<^verbatim>\<open>for i, part_path in enumerate(temp_split_files)\<close>: the flag
  returned, the output directory, and the searches run. An exception that escapes a
  search is caught by the \<^verbatim>\<open>except Exception\<close> of \<^verbatim>\<open>try_split_and_compress\<close>.
\<close>

fun compress_phase ::
  "(int \<Rightarrow> tools) \<Rightarrow> args \<Rightarrow> int \<Rightarrow> (int \<times> int) list \<Rightarrow> out_file list \<Rightarrow> out_file directory
     \<Rightarrow> bool \<times> out_file directory \<times> run list" where
  "compress_phase pt a i [] split_files dir = (True, dir, [])"
| "compress_phase pt a i (part_path # rest) split_files dir =
     (let keep_temp = keep_temp_on_failure a;
          compressed_path = PartCompressed (i + 1);
          r = run_aggressive_compression (pt (i + 1)) compressed_path dir (target_size a) keep_temp
      in
      case result r of
        Succeeded chosen st \<Rightarrow>
          (let final_part_path = Part (i + 1);
               dir' = (if compressed_path \<noteq> final_part_path
                       then unlink_if_exists compressed_path
                              (copy_file (file_at (output_dir r) compressed_path) final_part_path
                                 (output_dir r))
                       else output_dir r);
               (ok, dir'', rs) = compress_phase pt a (i + 1) rest
                                   (split_files @ [final_part_path]) dir'
           in (ok, dir'', r # rs))
      | Failed \<Rightarrow> (False, clean_up split_files (output_dir r), [r])
      | Raised \<Rightarrow> (False, clean_up split_files (output_dir r), [r]))"

record split_attempt =
  parts :: int
  ok :: bool
  ranges :: "(int \<times> int) list option"
  searches :: "run list"
  split_temp_dir :: workspace
  dir_after :: "out_file directory"

text \<open>
  \<^verbatim>\<open>math.ceil(total_pages / k)\<close> is computed before the \<^verbatim>\<open>try\<close>, so the division by
  zero of \<open>k = 0\<close> escapes the function.
\<close>

definition try_split_and_compress ::
  "split_pdf \<Rightarrow> (int \<Rightarrow> tools) \<Rightarrow> out_file directory \<Rightarrow> args \<Rightarrow> int \<Rightarrow> int
     \<Rightarrow> py_error + split_attempt" where
  "try_split_and_compress sp pt dir a k total_pages =
     (if k = 0 then Inl ZeroDivisionError
      else
        (let pages_per_split = \<lceil>real_of_int total_pages / real_of_int k\<rceil>;
             finally = release (keep_temp_on_failure a) in
         case split_phase sp pages_per_split total_pages [0..k - 1] of
           None \<Rightarrow>
             Inr \<lparr>parts = k, ok = False, ranges = None, searches = [],
                  split_temp_dir = finally, dir_after = dir\<rparr>
         | Some temp_split_files \<Rightarrow>
             (let (b, dir', rs) = compress_phase pt a 0 temp_split_files [] dir
              in Inr \<lparr>parts = k, ok = b, ranges = Some temp_split_files, searches = rs,
                      split_temp_dir = finally, dir_after = dir'\<rparr>)))"

text \<open>
  The document and everything outside the program that acts on it: the file itself, the
  tools on the whole document, \<^verbatim>\<open>pipeline.get_pdf_page_count\<close>, and for each number of
  parts \<open>k\<close> the splitting of the document and the tools on each part.
\<close>

record world =
  pdf :: stat
  document_tools :: tools
  get_pdf_page_count :: int
  qpdf :: "int \<Rightarrow> split_pdf"
  part_tools :: "int \<Rightarrow> int \<Rightarrow> tools"

record protocol =
  split_success :: "py_error + bool"
  split_attempts :: "split_attempt list"
  split_dir :: "out_file directory"

text \<open>The loop \<^verbatim>\<open>for k in range(initial_k, args.max_splits + 1)\<close>.\<close>

fun split_loop :: "world \<Rightarrow> args \<Rightarrow> int \<Rightarrow> int list \<Rightarrow> out_file directory \<Rightarrow> protocol" where
  "split_loop w a total_pages [] dir =
     \<lparr>split_success = Inr False, split_attempts = [], split_dir = dir\<rparr>"
| "split_loop w a total_pages (k # ks) dir =
     (case try_split_and_compress (qpdf w k) (part_tools w k) dir a k total_pages of
        Inl e \<Rightarrow> \<lparr>split_success = Inl e, split_attempts = [], split_dir = dir\<rparr>
      | Inr t \<Rightarrow>
          if \<not> ok t
          then (let p = split_loop w a total_pages ks (dir_after t)
                in p\<lparr>split_attempts := t # split_attempts p\<rparr>)
          else \<lparr>split_success = Inr True, split_attempts = [t], split_dir = dir_after t\<rparr>)"

definition run_splitting_protocol :: "world \<Rightarrow> out_file directory \<Rightarrow> args \<Rightarrow> protocol" where
  "run_splitting_protocol w dir a =
     (let total_pages = get_pdf_page_count w in
      if total_pages = 0
      then \<lparr>split_success = Inr False, split_attempts = [], split_dir = dir\<rparr>
      else
        (case get_file_size_mb (pdf w) of
           Inl e \<Rightarrow> \<lparr>split_success = Inl e, split_attempts = [], split_dir = dir\<rparr>
         | Inr original_size_mb \<Rightarrow>
             (let initial_k = calculate_split_strategy original_size_mb (max_splits a)
              in split_loop w a total_pages [initial_k..max_splits a] dir)))"

section \<open>orchestrator.py\<close>

record processed =
  returned :: bool
  search :: "run option"
  splitting :: "protocol option"
  final_dir :: "out_file directory"

text \<open>
  \<^verbatim>\<open>process_file\<close>: \<open>search\<close> and \<open>splitting\<close> are \<open>None\<close> when
  \<^verbatim>\<open>run_iterative_compression\<close> and \<^verbatim>\<open>run_splitting_protocol\<close> are not called. Every
  exception is caught and gives \<^verbatim>\<open>False\<close>.
\<close>

definition process_file :: "world \<Rightarrow> out_file directory \<Rightarrow> args \<Rightarrow> processed" where
  "process_file w dir a =
     (case get_file_size_mb (pdf w) of
        Inl e \<Rightarrow> \<lparr>returned = False, search = None, splitting = None, final_dir = dir\<rparr>
      | Inr original_size_mb \<Rightarrow>
          if original_size_mb < target_size a
          then \<lparr>returned = True, search = None, splitting = None,
                final_dir = (if copy_small_files a then copy_file (pdf w) Original dir else dir)\<rparr>
          else
            (let r = run_iterative_compression (document_tools w) (pdf w) Compressed dir
                       (target_size a) (keep_temp_on_failure a)
             in
             case result r of
               Succeeded chosen st \<Rightarrow>
                 \<lparr>returned = True, search = Some r, splitting = None, final_dir = output_dir r\<rparr>
             | Raised \<Rightarrow>
                 \<lparr>returned = False, search = Some r, splitting = None, final_dir = output_dir r\<rparr>
             | Failed \<Rightarrow>
                 if allow_splitting a
                 then (let p = run_splitting_protocol w (output_dir r) a
                       in \<lparr>returned = (split_success p = Inr True), search = Some r,
                           splitting = Some p, final_dir = split_dir p\<rparr>)
                 else \<lparr>returned = False, search = Some r, splitting = None,
                       final_dir = output_dir r\<rparr>))"

section \<open>The tests of the search on one attempt\<close>

text \<open>
  The success test of every attempt: \<^verbatim>\<open>reconstruct_pdf(...)\<close> is true and
  \<^verbatim>\<open>get_file_size_mb(output) <= target_size_mb\<close>.
\<close>

definition within_target :: "reconstruction \<Rightarrow> real \<Rightarrow> bool" where
  "within_target r target_size_mb =
     (case r of
        ReturnsTrue st \<Rightarrow>
          (case get_file_size_mb st of Inr x \<Rightarrow> x \<le> target_size_mb | Inl e \<Rightarrow> False)
      | _ \<Rightarrow> False)"

text \<open>
  An attempt that fails to reconstruct or exceeds the target: \<^verbatim>\<open>reconstruct_pdf(...)\<close>
  is false, or it is true and the size is above the target.
\<close>

definition rejected :: "reconstruction \<Rightarrow> real \<Rightarrow> bool" where
  "rejected r target_size_mb =
     (case r of
        ReturnsFalse \<Rightarrow> True
      | ReturnsTrue st \<Rightarrow>
          (case get_file_size_mb st of Inr x \<Rightarrow> x > target_size_mb | Inl e \<Rightarrow> False)
      | Raises \<Rightarrow> False)"

text \<open>
  The test of line 104 on the first attempt:
  \<^verbatim>\<open>result_size_mb > target_size_mb * threshold_factor\<close>.
\<close>

definition far_from_target :: "reconstruction \<Rightarrow> real \<Rightarrow> bool" where
  "far_from_target r target_size_mb =
     (case r of
        ReturnsTrue st \<Rightarrow>
          (case get_file_size_mb st of
             Inr x \<Rightarrow> x > float_mul target_size_mb threshold_factor | Inl e \<Rightarrow> False)
      | _ \<Rightarrow> False)"

text \<open>The output path after a call of \<^verbatim>\<open>reconstruct_pdf\<close> that returned true.\<close>

definition output_state :: "reconstruction \<Rightarrow> stat" where
  "output_state r = (case r of ReturnsTrue st \<Rightarrow> st | _ \<Rightarrow> Missing)"

text \<open>
  \<^verbatim>\<open>run_iterative_compression\<close> reaches its first attempt with the strategy \<open>s\<close>: the
  size of the document has a tier, \<open>s\<close> is the strategy of the tier, and the images and
  the hOCR file shared by all attempts are produced.
\<close>

definition search_begins :: "tools \<Rightarrow> stat \<Rightarrow> strategy \<Rightarrow> bool" where
  "search_begins t pdf_path s =
     (case get_file_size_mb pdf_path of
        Inl e \<Rightarrow> False
      | Inr original_size_mb \<Rightarrow>
          determine_tier original_size_mb \<noteq> 0
          \<and> STRATEGIES (determine_tier original_size_mb) = Some s
          \<and> deconstruct_pdf_to_images t (Max (set (map dpi (params_sequence s))))
          \<and> analyze_images_to_hocr t)"

text \<open>
  The reference algorithm of the specification, for tools that write \<open>bytes p\<close> bytes for
  the parameters \<open>p\<close>: scan the parameters in index order and return the first whose
  size is within the target.
\<close>

definition reference_search :: "(params \<Rightarrow> nat) \<Rightarrow> real \<Rightarrow> params list \<Rightarrow> params option" where
  "reference_search bytes target_size_mb seq =
     find (\<lambda>p. real (bytes p) / (1024 * 1024) \<le> target_size_mb) seq"

text \<open>
  An output directory with no file of a part in it: no \<^verbatim>\<open><stem>_part<n>.pdf\<close> and no
  \<^verbatim>\<open><stem>_temp_part<n>_compressed.pdf\<close>.
\<close>

definition no_part_files :: "out_file directory \<Rightarrow> bool" where
  "no_part_files dir = (\<forall>n. dir (Part n) = None \<and> dir (PartCompressed n) = None)"

text \<open>
  An attempt with \<open>k\<close> parts, seen from the tools. Some page range cannot be extracted:
  one of the calls of \<^verbatim>\<open>split_pdf\<close> for a range that starts inside the document
  returns false.
\<close>

definition extraction_fails :: "split_pdf \<Rightarrow> int \<Rightarrow> int \<Rightarrow> bool" where
  "extraction_fails sp k total_pages =
     (let p = \<lceil>real_of_int total_pages / real_of_int k\<rceil> in
      \<exists>i \<in> set [0..k - 1].
        i * p + 1 \<le> total_pages \<and> \<not> sp (i + 1) (i * p + 1) (min ((i + 1) * p) total_pages))"

text \<open>The number of ranges that start inside the document.\<close>

definition parts_cut :: "int \<Rightarrow> int \<Rightarrow> int" where
  "parts_cut k total_pages =
     (let p = \<lceil>real_of_int total_pages / real_of_int k\<rceil> in
      int (length (filter (\<lambda>i. i * p + 1 \<le> total_pages) [0..k - 1])))"

text \<open>
  A part compresses: \<^verbatim>\<open>run_aggressive_compression\<close> on it returns success. What it
  returns depends on the tools of the part and on the target only, not on the output
  directory.
\<close>

definition compresses :: "tools \<Rightarrow> args \<Rightarrow> bool" where
  "compresses t a =
     (case result (run_aggressive_compression t Compressed Map.empty (target_size a)
                     (keep_temp_on_failure a)) of
        Succeeded chosen st \<Rightarrow> True
      | _ \<Rightarrow> False)"

text \<open>Some part that was cut does not compress.\<close>

definition compression_fails :: "(int \<Rightarrow> tools) \<Rightarrow> args \<Rightarrow> int \<Rightarrow> int \<Rightarrow> bool" where
  "compression_fails pt a k total_pages =
     (\<exists>n \<in> set [1..parts_cut k total_pages]. \<not> compresses (pt n) a)"

text \<open>
  An attempt of \<^verbatim>\<open>run_splitting_protocol\<close> with \<open>k\<close> parts fails, seen from the tools:
  a page range of the document cannot be extracted, or a part that was cut does not
  compress.
\<close>

definition attempt_fails :: "world \<Rightarrow> args \<Rightarrow> int \<Rightarrow> bool" where
  "attempt_fails w a k =
     (extraction_fails (qpdf w k) k (get_pdf_page_count w)
      \<or> compression_fails (part_tools w k) a k (get_pdf_page_count w))"

section \<open>Inputs used as examples\<close>

text \<open>Tools that produce nothing: no page image is ever generated.\<close>

definition no_tools :: tools where
  "no_tools = \<lparr>deconstruct_pdf_to_images = (\<lambda>_. False), analyze_images_to_hocr = False,
               reconstruct = (\<lambda>_ _. ReturnsFalse)\<rparr>"

text \<open>The default command line: a target of 2 MB and at most 4 parts.\<close>

definition default_args :: args where
  "default_args = \<lparr>target_size = 2, max_splits = 4, keep_temp_on_failure = False,
                   allow_splitting = True, copy_small_files = False\<rparr>"

text \<open>The strategy of tier 1, as \<^verbatim>\<open>STRATEGIES[1]\<close> has it.\<close>

definition tier_1 :: strategy where
  "tier_1 = \<lparr>name = ''High Quality Compression'',
             params_sequence =
               [preset 300 1 ''openjpeg'', preset 300 2 ''openjpeg'', preset 300 3 ''grok'',
                preset 250 3 ''openjpeg'', preset 200 4 ''grok'']\<rparr>"

text \<open>
  Scenario A of the specification, on a document of 8 MB: the five attempts of tier 1
  write 6 MB, 4 MB, 2.3 MB, 1.8 MB and 1.5 MB.
\<close>

definition scenario_A_bytes :: "params \<Rightarrow> nat" where
  "scenario_A_bytes p =
     (if bg_downsample p = 1 then 6291456
      else if bg_downsample p = 2 then 4194304
      else if dpi p = 300 then 2411725
      else if dpi p = 250 then 1887437
      else 1572864)"

definition scenario_A :: tools where
  "scenario_A = \<lparr>deconstruct_pdf_to_images = (\<lambda>_. True), analyze_images_to_hocr = True,
                 reconstruct = (\<lambda>p f. ReturnsTrue (File (scenario_A_bytes p)))\<rparr>"

text \<open>Tools whose reconstruction reports success and writes no file.\<close>

definition silent_tools :: tools where
  "silent_tools = \<lparr>deconstruct_pdf_to_images = (\<lambda>_. True), analyze_images_to_hocr = True,
                   reconstruct = (\<lambda>_ _. ReturnsTrue Missing)\<rparr>"

text \<open>
  A document of 60 MB and 8 pages whose second part never compresses: its tools produce
  no image, the tools of every other part are those of scenario A.
\<close>

definition second_part_fails :: world where
  "second_part_fails =
     \<lparr>pdf = File 62914560, document_tools = no_tools, get_pdf_page_count = 8,
      qpdf = (\<lambda>_ _ _ _. True),
      part_tools = (\<lambda>k n. if n = 2 then no_tools else scenario_A)\<rparr>"

text \<open>A document of exactly 2 MB, the default target, and a document of 1 MB.\<close>

definition exactly_at_target :: world where
  "exactly_at_target =
     \<lparr>pdf = File 2097152, document_tools = scenario_A, get_pdf_page_count = 8,
      qpdf = (\<lambda>_ _ _ _. True), part_tools = (\<lambda>_ _. scenario_A)\<rparr>"

definition small_document :: world where
  "small_document =
     \<lparr>pdf = File 1048576, document_tools = scenario_A, get_pdf_page_count = 8,
      qpdf = (\<lambda>_ _ _ _. True), part_tools = (\<lambda>_ _. scenario_A)\<rparr>"

section \<open>The search of \<^verbatim>\<open>run_iterative_compression\<close>\<close>

subsection \<open>Facts about the parts of the search\<close>

lemma get_file_size_mb_cases:
  "get_file_size_mb (File n) = Inr (real n / (1024 * 1024))"
  "get_file_size_mb Missing = Inr 0"
  "get_file_size_mb Inaccessible = Inl OtherOSError"
  by (simp_all add: get_file_size_mb_def getsize_def)

lemma get_file_size_mb_nonneg: "get_file_size_mb st = Inr x \<Longrightarrow> 0 \<le> x"
  by (cases st) (auto simp: get_file_size_mb_cases)

lemma round_half_even_int: "round_half_even (of_int m) = m"
  by (simp add: round_half_even_def)

lemma round_half_even_ge: "z - 1 / 2 \<le> of_int (round_half_even z)"
  unfolding round_half_even_def Let_def by (auto; linarith)

lemma round_double_at:
  assumes "2 powr of_int e \<le> \<bar>x\<bar>" "\<bar>x\<bar> < 2 powr (of_int e + 1)"
  shows "round_double x = of_int (round_half_even (x / 2 powr (of_int e - 52))) * 2 powr (of_int e - 52)"
proof -
  have "0 < (2::real) powr of_int e" by simp
  then have pos: "0 < \<bar>x\<bar>" using assms(1) by linarith
  then have x0: "x \<noteq> 0" by auto
  have fl: "\<lfloor>log 2 \<bar>x\<bar>\<rfloor> = e"
    using assms(1,2) pos by (subst floor_log_eq_powr_iff) auto
  show ?thesis using x0 by (simp add: round_double_def fl Let_def)
qed

lemma round_double_exact:
  assumes "2 powr of_int e \<le> \<bar>x\<bar>" "\<bar>x\<bar> < 2 powr (of_int e + 1)"
    and "x / 2 powr (of_int e - 52) = of_int m"
  shows "round_double x = x"
proof -
  have "round_double x = of_int m * 2 powr (of_int e - 52)"
    unfolding round_double_at[OF assms(1,2)] assms(3) round_half_even_int ..
  also have "\<dots> = x" using assms(3)[symmetric] by simp
  finally show ?thesis .
qed

lemma float_mul_threshold_2: "float_mul 2 threshold_factor = 3"
  unfolding float_mul_def threshold_factor_def
  by (rule round_double_exact[where e=1 and m="3 * 2 ^ 51", THEN trans])
     (simp_all add: powr_minus divide_simps)

lemma float_mul_threshold_1: "float_mul 1 threshold_factor = 3 / 2"
  unfolding float_mul_def threshold_factor_def
  by (rule round_double_exact[where e=0 and m="3 * 2 ^ 51", THEN trans])
     (simp_all add: powr_minus divide_simps)

lemma round_double_lower:
  assumes "0 < y"
  shows "y * (1 - 2 powr (-53)) \<le> round_double y"
proof -
  define e where "e = \<lfloor>log 2 \<bar>y\<bar>\<rfloor>"
  define u :: real where "u = 2 powr (of_int e - 52)"
  have upos: "0 < u" by (simp add: u_def)
  have "of_int e \<le> log 2 y" using assms by (simp add: e_def)
  then have "2 powr of_int e \<le> y" using assms by (simp add: le_log_iff)
  then have uy: "u \<le> y * 2 powr (-52)"
    unfolding u_def by (simp add: powr_diff powr_minus divide_simps)
  have rd: "round_double y = of_int (round_half_even (y / u)) * u"
    using assms by (simp add: round_double_def Let_def e_def u_def)
  have "y / u - 1 / 2 \<le> of_int (round_half_even (y / u))" by (rule round_half_even_ge)
  then have "(y / u - 1 / 2) * u \<le> of_int (round_half_even (y / u)) * u"
    using upos by (simp add: mult_right_mono)
  then have "y - u / 2 \<le> round_double y" using upos by (simp add: rd algebra_simps)
  moreover have "y * (1 - 2 powr (-53)) \<le> y - u / 2"
  proof -
    have "u / 2 \<le> y * 2 powr (-52) / 2" using uy by simp
    also have "\<dots> = y * 2 powr (-53)" by (simp add: powr_minus)
    finally show ?thesis by (simp add: algebra_simps)
  qed
  ultimately show ?thesis by linarith
qed

lemma above_float_mul_above_target:
  assumes "0 \<le> x" "x > float_mul T (3 / 2)"
  shows "x > T"
proof (cases "0 < T")
  case False
  show ?thesis
  proof (cases "T = 0")
    case True
    then show ?thesis using assms by (simp add: float_mul_def round_double_def)
  next
    case False
    then show ?thesis using \<open>\<not> 0 < T\<close> assms(1) by linarith
  qed
next
  case True
  then have y: "0 < T * (3 / 2)" by simp
  have "(2::real) powr (-53) \<le> 1 / 3" by (simp add: powr_minus)
  then have "T \<le> T * (3 / 2) * (1 - 2 powr (-53))" using True
    by (simp add: algebra_simps)
  also have "\<dots> \<le> round_double (T * (3 / 2))" by (rule round_double_lower[OF y])
  finally show ?thesis using assms(2) by (simp add: float_mul_def)
qed

text \<open>
  The double nearest to \<open>4/3\<close> times 1.5 is a tie between two doubles and rounds to 2.0,
  as \<^verbatim>\<open>1.3333333333333333 * 1.5 == 2.0\<close> in Python.
\<close>

lemma float_mul_rounds_to_even: "float_mul (6004799503160661 / 2 ^ 52) 1.5 = 2"
proof -
  let ?x = "(2 ^ 54 - 1) / 2 ^ 53 :: real"
  have x: "(6004799503160661 / 2 ^ 52 :: real) * 1.5 = ?x" by simp
  have q: "?x / 2 powr (of_int 0 - 52) = 9007199254740991 + 1 / 2"
    by (simp add: powr_minus)
  have r: "round_half_even (9007199254740991 + 1 / 2) = 9007199254740992"
    by (simp add: round_half_even_def Let_def)
  have b: "2 powr of_int 0 \<le> \<bar>?x\<bar>" "\<bar>?x\<bar> < 2 powr (of_int 0 + 1)" by simp_all
  have "round_double ?x =
          of_int (round_half_even (?x / 2 powr (of_int 0 - 52))) * 2 powr (of_int 0 - 52)"
    by (rule round_double_at[OF b])
  also have "\<dots> = of_int 9007199254740992 * 2 powr (of_int 0 - 52)"
    by (simp only: q r)
  also have "\<dots> = 2" by (simp add: powr_minus)
  finally show ?thesis unfolding float_mul_def x .
qed

text \<open>
  So a first attempt of exactly 2 MB is not above the threshold for the target
  \<^verbatim>\<open>1.3333333333333333\<close>, although 2 is above the exact product.
\<close>

lemma size_at_rounded_threshold_not_far:
  "\<not> far_from_target (ReturnsTrue (File 2097152)) (6004799503160661 / 2 ^ 52)
   \<and> (6004799503160661 / 2 ^ 52 :: real) * 1.5 < 2"
proof -
  have "get_file_size_mb (File 2097152) = Inr 2" by (simp add: get_file_size_mb_cases)
  then have "\<not> far_from_target (ReturnsTrue (File 2097152)) (6004799503160661 / 2 ^ 52)"
    unfolding far_from_target_def threshold_factor_def float_mul_rounds_to_even by simp
  then show ?thesis by simp
qed

lemma STRATEGIES_nonempty: "STRATEGIES tier = Some s \<Longrightarrow> params_sequence s \<noteq> []"
  by (auto simp: STRATEGIES_def split: if_splits)

lemma run_iterative_compression_begins:
  assumes "search_begins t pdf_path s"
  shows "run_iterative_compression t pdf_path final_path dir target_size_mb keep =
           \<lparr>result = fst (attempts (reconstruct t) target_size_mb (params_sequence s)),
            calls = snd (attempts (reconstruct t) target_size_mb (params_sequence s)),
            temp_dir = release keep,
            output_dir = save_result (fst (attempts (reconstruct t) target_size_mb (params_sequence s)))
                           final_path dir\<rparr>"
  using assms
  by (auto simp: search_begins_def run_iterative_compression_def Let_def split: sum.splits prod.splits)

lemma attempts_first_within:
  assumes "within_target (rp (seq ! 0) First) T"
  shows "attempts rp T seq = (Succeeded First (output_state (rp (seq ! 0) First)), [(seq ! 0, First)])"
  using assms
  by (auto simp: attempts_def within_target_def output_state_def Let_def
           split: reconstruction.splits sum.splits)

lemma far_not_within:
  assumes "far_from_target r T"
  shows "\<exists>st x. r = ReturnsTrue st \<and> get_file_size_mb st = Inr x \<and> \<not> x \<le> T
                \<and> x > float_mul T threshold_factor"
proof -
  from assms obtain st x where r: "r = ReturnsTrue st" and x: "get_file_size_mb st = Inr x"
    and far: "x > float_mul T threshold_factor"
    by (auto simp: far_from_target_def split: reconstruction.splits sum.splits)
  have "0 \<le> x" using x by (rule get_file_size_mb_nonneg)
  moreover have "x > float_mul T (3 / 2)" using far by (simp add: threshold_factor_def)
  ultimately have "x > T" by (rule above_float_mul_above_target)
  then show ?thesis using r x far by auto
qed

lemma attempts_far:
  assumes "far_from_target (rp (seq ! 0) First) T"
  shows "attempts rp T seq =
     (let last_index = length seq - 1; first_call = (seq ! 0, First);
          last_call = (seq ! last_index, Last) in
      case rp (seq ! last_index) Last of
        Raises \<Rightarrow> (Raised, [first_call, last_call])
      | ReturnsFalse \<Rightarrow> (Failed, [first_call, last_call])
      | ReturnsTrue st' \<Rightarrow>
          (case get_file_size_mb st' of
             Inl e \<Rightarrow> (Raised, [first_call, last_call])
           | Inr last_size \<Rightarrow>
               if last_size > T then (Failed, [first_call, last_call])
               else
                 (case backtrack rp T seq (rev [0..<last_index]) (Last, st') of
                    (None, cs) \<Rightarrow> (Raised, first_call # last_call # cs)
                  | (Some (chosen_path, st''), cs) \<Rightarrow>
                      (Succeeded chosen_path st'', first_call # last_call # cs))))"
proof -
  from far_not_within[OF assms] obtain st x where
    "rp (seq ! 0) First = ReturnsTrue st" "get_file_size_mb st = Inr x" "\<not> x \<le> T"
    "x > float_mul T threshold_factor" by blast
  then show ?thesis
    by (simp add: attempts_def Let_def)
qed

lemma attempts_in_order:
  assumes "rejected (rp (seq ! 0) First) T" "\<not> far_from_target (rp (seq ! 0) First) T"
  shows "attempts rp T seq =
           (fst (sequential rp T (map (\<lambda>i. (i, seq ! i)) [1..<length seq])),
            (seq ! 0, First) # snd (sequential rp T (map (\<lambda>i. (i, seq ! i)) [1..<length seq])))"
  using assms
  by (auto simp: attempts_def Let_def rejected_def far_from_target_def
           split: reconstruction.splits sum.splits prod.splits)

lemma backtrack_stops:
  assumes "j \<le> m"
    and "\<forall>i. j \<le> i \<and> i < m \<longrightarrow> within_target (rp (seq ! i) (Back i)) T"
    and "j = 0 \<or> rejected (rp (seq ! (j - 1)) (Back (j - 1))) T"
  shows "backtrack rp T seq (rev [0..<m]) chosen =
           (Some (if j = m then chosen else (Back j, output_state (rp (seq ! j) (Back j)))),
            map (\<lambda>i. (seq ! i, Back i)) (rev [j - 1..<m]))"
  using assms
proof (induction m arbitrary: chosen)
  case 0
  then show ?case by simp
next
  case (Suc m)
  show ?case
  proof (cases "j = Suc m")
    case True
    then have "rejected (rp (seq ! m) (Back m)) T" using Suc.prems(3) by simp
    then show ?thesis using True
      by (auto simp: rejected_def Let_def split: reconstruction.splits sum.splits)
  next
    case False
    then have jm: "j \<le> m" using Suc.prems(1) by simp
    have pass: "within_target (rp (seq ! m) (Back m)) T" using Suc.prems(2) jm by simp
    then obtain st x where st: "rp (seq ! m) (Back m) = ReturnsTrue st"
      and x: "get_file_size_mb st = Inr x" "x \<le> T"
      by (auto simp: within_target_def split: reconstruction.splits sum.splits)
    have IH: "backtrack rp T seq (rev [0..<m]) (Back m, st) =
           (Some (if j = m then (Back m, st) else (Back j, output_state (rp (seq ! j) (Back j)))),
            map (\<lambda>i. (seq ! i, Back i)) (rev [j - 1..<m]))"
      using Suc.IH[OF jm _ Suc.prems(3)] Suc.prems(2) by simp
    have up: "rev [j - 1..<Suc m] = m # rev [j - 1..<m]" using jm by simp
    show ?thesis using False st x IH up
      by (auto simp: Let_def output_state_def)
  qed
qed

lemma scenario_A_begins: "search_begins scenario_A (File 8388608) tier_1"
  by (simp add: search_begins_def get_file_size_mb_cases determine_tier_def STRATEGIES_def
      tier_1_def scenario_A_def)

lemma scenario_A_reconstruct:
  "reconstruct scenario_A (params_sequence tier_1 ! 0) f = ReturnsTrue (File 6291456)"
  "reconstruct scenario_A (params_sequence tier_1 ! 2) f = ReturnsTrue (File 2411725)"
  "reconstruct scenario_A (params_sequence tier_1 ! 3) f = ReturnsTrue (File 1887437)"
  "reconstruct scenario_A (params_sequence tier_1 ! 4) f = ReturnsTrue (File 1572864)"
  "length (params_sequence tier_1) = 5"
  by (simp_all add: scenario_A_def tier_1_def preset_def scenario_A_bytes_def)

lemma silent_tools_begin: "search_begins silent_tools (File 8388608) tier_1"
  by (simp add: search_begins_def get_file_size_mb_cases determine_tier_def STRATEGIES_def
      tier_1_def silent_tools_def)

subsection \<open>The first attempt\<close>

text \<open>
  C4. When the first attempt of the search reconstructs with a size within the target,
  \<^verbatim>\<open>run_iterative_compression\<close> returns success at once: the file of that attempt is
  the one copied to the final path, and the call of \<^verbatim>\<open>reconstruct_pdf\<close> for the first
  parameters is the only one made.
\<close>

theorem first_attempt_within_target:
  assumes "search_begins t pdf_path s"
    and "within_target (reconstruct t (params_sequence s ! 0) First) target_size_mb"
  shows "run_iterative_compression t pdf_path final_path dir target_size_mb keep =
           \<lparr>result = Succeeded First (output_state (reconstruct t (params_sequence s ! 0) First)),
            calls = [(params_sequence s ! 0, First)],
            temp_dir = release keep,
            output_dir = copy_file (output_state (reconstruct t (params_sequence s ! 0) First))
                           final_path dir\<rparr>"
  unfolding run_iterative_compression_begins[OF assms(1)] attempts_first_within[where rp="reconstruct t" and seq="params_sequence s", OF assms(2)]
  by (simp add: save_result_def)

theorem first_attempt_within_target_witness:
  "search_begins scenario_A (File 8388608) tier_1
   \<and> within_target (reconstruct scenario_A (params_sequence tier_1 ! 0) First) 6
   \<and> run_iterative_compression scenario_A (File 8388608) Compressed Map.empty 6 False =
       \<lparr>result = Succeeded First (File 6291456),
        calls = [(preset 300 1 ''openjpeg'', First)],
        temp_dir = Deleted,
        output_dir = [Compressed \<mapsto> 6291456]\<rparr>"
proof -
  have w: "within_target (reconstruct scenario_A (params_sequence tier_1 ! 0) First) 6"
    by (simp add: scenario_A_reconstruct within_target_def get_file_size_mb_cases)
  show ?thesis
    using first_attempt_within_target[OF scenario_A_begins w, of Compressed Map.empty False]
      scenario_A_begins w
    by (simp add: scenario_A_reconstruct output_state_def copy_file_def release_def)
       (simp add: tier_1_def)
qed

subsection \<open>The jump to the last parameters\<close>

text \<open>
  C2. When the first attempt reconstructs with a size above the threshold of line 104,
  the double that \<^verbatim>\<open>target_size_mb * threshold_factor\<close> evaluates to (\<open>float_mul\<close>: the
  product with 1.5 rounded to the nearest double, ties to even), the second call of \<^verbatim>\<open>reconstruct_pdf\<close> is for the last parameters of the tier; and when
  that attempt fails to reconstruct or is above the target, the search returns failure,
  writes nothing to the output directory, and has made these two calls only.
\<close>

theorem far_first_attempt_jumps_to_last:
  assumes "search_begins t pdf_path s"
    and "far_from_target (reconstruct t (params_sequence s ! 0) First) target_size_mb"
  shows "(\<exists>cs. calls (run_iterative_compression t pdf_path final_path dir target_size_mb keep) =
              (params_sequence s ! 0, First)
              # (params_sequence s ! (length (params_sequence s) - 1), Last) # cs)
       \<and> (rejected (reconstruct t (params_sequence s ! (length (params_sequence s) - 1)) Last)
             target_size_mb \<longrightarrow>
           run_iterative_compression t pdf_path final_path dir target_size_mb keep =
             \<lparr>result = Failed,
              calls = [(params_sequence s ! 0, First),
                       (params_sequence s ! (length (params_sequence s) - 1), Last)],
              temp_dir = release keep,
              output_dir = dir\<rparr>)"
  unfolding run_iterative_compression_begins[OF assms(1)] attempts_far[where rp="reconstruct t" and seq="params_sequence s", OF assms(2)]
  by (auto simp: Let_def save_result_def rejected_def within_target_def
           split: reconstruction.splits sum.splits prod.splits option.splits)

theorem far_first_attempt_jumps_to_last_witness:
  "search_begins scenario_A (File 8388608) tier_1
   \<and> far_from_target (reconstruct scenario_A (params_sequence tier_1 ! 0) First) 1
   \<and> rejected (reconstruct scenario_A (params_sequence tier_1 ! 4) Last) 1
   \<and> run_iterative_compression scenario_A (File 8388608) Compressed Map.empty 1 False =
       \<lparr>result = Failed,
        calls = [(preset 300 1 ''openjpeg'', First), (preset 200 4 ''grok'', Last)],
        temp_dir = Deleted,
        output_dir = Map.empty\<rparr>"
proof -
  have f: "far_from_target (reconstruct scenario_A (params_sequence tier_1 ! 0) First) 1"
    by (simp add: scenario_A_reconstruct far_from_target_def get_file_size_mb_cases
        float_mul_threshold_1)
  have r: "rejected (reconstruct scenario_A (params_sequence tier_1 ! 4) Last) 1"
    by (simp add: scenario_A_reconstruct rejected_def get_file_size_mb_cases)
  show ?thesis
    using far_first_attempt_jumps_to_last[OF scenario_A_begins f, of Compressed Map.empty False]
      scenario_A_begins f r
    by (simp add: scenario_A_reconstruct release_def) (simp add: tier_1_def)
qed

subsection \<open>Backtracking\<close>

text \<open>
  C1. When the first attempt is far from the target (its size is above the double that
  \<^verbatim>\<open>target_size_mb * threshold_factor\<close> evaluates to) and the attempt with the last
  parameters is within it, backtracking tries the indices \<open>last - 1\<close> down to 0. If the
  candidates from \<open>j\<close> to \<open>last - 1\<close> all reconstruct within the target, and \<open>j\<close> is 0 or
  the candidate \<open>j - 1\<close> fails to reconstruct or exceeds the target, then the calls made
  are the first, the last and the candidates from \<open>last - 1\<close> down to the one that stops
  the walk, and the file returned is the one of the candidate \<open>j\<close> (the one of the last
  parameters when \<open>j = last\<close>): the smallest index of the run of passing candidates that
  ends at the last parameters.
\<close>

theorem backtracking_returns_best:
  assumes "search_begins t pdf_path s"
    and "far_from_target (reconstruct t (params_sequence s ! 0) First) target_size_mb"
    and "within_target (reconstruct t (params_sequence s ! (length (params_sequence s) - 1)) Last)
           target_size_mb"
    and "j \<le> length (params_sequence s) - 1"
    and "\<forall>i. j \<le> i \<and> i < length (params_sequence s) - 1 \<longrightarrow>
             within_target (reconstruct t (params_sequence s ! i) (Back i)) target_size_mb"
    and "j = 0 \<or> rejected (reconstruct t (params_sequence s ! (j - 1)) (Back (j - 1))) target_size_mb"
  shows "run_iterative_compression t pdf_path final_path dir target_size_mb keep =
           (let seq = params_sequence s; last_index = length seq - 1;
                chosen_path = (if j = last_index then Last else Back j);
                st = (if j = last_index then output_state (reconstruct t (seq ! last_index) Last)
                      else output_state (reconstruct t (seq ! j) (Back j)))
            in \<lparr>result = Succeeded chosen_path st,
                calls = (seq ! 0, First) # (seq ! last_index, Last)
                        # map (\<lambda>i. (seq ! i, Back i)) (rev [j - 1..<last_index]),
                temp_dir = release keep,
                output_dir = copy_file st final_path dir\<rparr>)"
proof -
  let ?seq = "params_sequence s"
  let ?m = "length ?seq - 1"
  from assms(3) obtain st' x where st': "reconstruct t (?seq ! ?m) Last = ReturnsTrue st'"
    and x: "get_file_size_mb st' = Inr x" "x \<le> target_size_mb"
    by (auto simp: within_target_def split: reconstruction.splits sum.splits)
  show ?thesis
    unfolding run_iterative_compression_begins[OF assms(1)] attempts_far[where rp="reconstruct t" and seq="params_sequence s", OF assms(2)]
    using st' x backtrack_stops[where rp="reconstruct t" and seq="params_sequence s" and chosen="(Last, st')", OF assms(4,5,6)]
    by (simp add: Let_def save_result_def output_state_def)
qed

theorem backtracking_returns_best_witness:
  "search_begins scenario_A (File 8388608) tier_1
   \<and> far_from_target (reconstruct scenario_A (params_sequence tier_1 ! 0) First) 2
   \<and> within_target (reconstruct scenario_A (params_sequence tier_1 ! 4) Last) 2
   \<and> within_target (reconstruct scenario_A (params_sequence tier_1 ! 3) (Back 3)) 2
   \<and> rejected (reconstruct scenario_A (params_sequence tier_1 ! 2) (Back 2)) 2
   \<and> run_iterative_compression scenario_A (File 8388608) Compressed Map.empty 2 False =
       \<lparr>result = Succeeded (Back 3) (File 1887437),
        calls = [(preset 300 1 ''openjpeg'', First), (preset 200 4 ''grok'', Last),
                 (preset 250 3 ''openjpeg'', Back 3), (preset 300 3 ''grok'', Back 2)],
        temp_dir = Deleted,
        output_dir = [Compressed \<mapsto> 1887437]\<rparr>"
proof -
  have f: "far_from_target (reconstruct scenario_A (params_sequence tier_1 ! 0) First) 2"
    by (simp add: scenario_A_reconstruct far_from_target_def get_file_size_mb_cases
        float_mul_threshold_2)
  have l: "within_target (reconstruct scenario_A
             (params_sequence tier_1 ! (length (params_sequence tier_1) - 1)) Last) 2"
    by (simp add: scenario_A_reconstruct within_target_def get_file_size_mb_cases)
  have b3: "within_target (reconstruct scenario_A (params_sequence tier_1 ! 3) (Back 3)) 2"
    by (simp add: scenario_A_reconstruct within_target_def get_file_size_mb_cases)
  have j: "(3::nat) \<le> length (params_sequence tier_1) - 1"
    by (simp add: scenario_A_reconstruct)
  have pass: "\<forall>i. 3 \<le> i \<and> i < length (params_sequence tier_1) - 1 \<longrightarrow>
                within_target (reconstruct scenario_A (params_sequence tier_1 ! i) (Back i)) 2"
  proof (intro allI impI)
    fix i :: nat assume "3 \<le> i \<and> i < length (params_sequence tier_1) - 1"
    then have "i = 3" by (simp add: scenario_A_reconstruct)
    then show "within_target (reconstruct scenario_A (params_sequence tier_1 ! i) (Back i)) 2"
      using b3 by simp
  qed
  have b2: "rejected (reconstruct scenario_A (params_sequence tier_1 ! 2) (Back 2)) 2"
    by (simp add: scenario_A_reconstruct rejected_def get_file_size_mb_cases)
  then have stop: "(3::nat) = 0 \<or> rejected (reconstruct scenario_A
                     (params_sequence tier_1 ! (3 - 1)) (Back (3 - 1))) 2"
    by simp
  have rv: "rev [2..<4] = [3, 2::nat]" by (simp add: upt_rec)
  show ?thesis
    using backtracking_returns_best[OF scenario_A_begins f l j pass stop,
            of Compressed Map.empty False]
      scenario_A_begins f l b3 b2
    by (simp add: scenario_A_reconstruct output_state_def copy_file_def release_def rv Let_def)
       (simp add: tier_1_def)
qed

subsection \<open>Agreement with the reference algorithm\<close>

lemma deterministic_tests:
  assumes "\<forall>p f. rp p f = ReturnsTrue (File (bytes p))"
  shows "within_target (rp p f) T \<longleftrightarrow> real (bytes p) / (1024 * 1024) \<le> T"
    and "rejected (rp p f) T \<longleftrightarrow> \<not> real (bytes p) / (1024 * 1024) \<le> T"
    and "output_state (rp p f) = File (bytes p)"
  using assms
  by (auto simp: within_target_def rejected_def output_state_def get_file_size_mb_cases)

lemma sequential_deterministic:
  assumes "\<forall>p f. rp p f = ReturnsTrue (File (bytes p))"
  shows "case find (\<lambda>(i, p). real (bytes p) / (1024 * 1024) \<le> T) ips of
           None \<Rightarrow> fst (sequential rp T ips) = Failed
         | Some (i, p) \<Rightarrow>
             fst (sequential rp T ips) = Succeeded (Numbered i) (File (bytes p))
             \<and> (p, Numbered i) \<in> set (snd (sequential rp T ips))"
proof (induction ips)
  case Nil
  show ?case by simp
next
  case (Cons ip ips)
  obtain i p where ip: "ip = (i, p)" by (cases ip)
  show ?case
  proof (cases "real (bytes p) / (1024 * 1024) \<le> T")
    case True
    then show ?thesis using assms ip by (simp add: get_file_size_mb_cases Let_def)
  next
    case False
    then show ?thesis using assms ip Cons.IH
      by (auto simp: get_file_size_mb_cases Let_def split: option.splits prod.splits)
  qed
qed

lemma monotone_nth:
  assumes "sorted_wrt (\<lambda>p q. bytes q \<le> bytes p) seq" "i \<le> j" "j < length seq"
  shows "bytes (seq ! j) \<le> (bytes (seq ! i) :: nat)"
proof (cases "i = j")
  case True then show ?thesis by simp
next
  case False
  then have "i < j" using assms(2) by simp
  then show ?thesis using assms(1,3) by (simp add: sorted_wrt_iff_nth_less)
qed

lemma find_over_map: "find P (map f xs) = map_option f (find (\<lambda>x. P (f x)) xs)"
  by (induction xs) auto

lemma attempts_deterministic:
  assumes ne: "seq \<noteq> []"
    and det: "\<forall>p f. rp p f = ReturnsTrue (File (bytes p))"
    and mono: "sorted_wrt (\<lambda>p q. bytes q \<le> bytes p) seq"
  shows "case reference_search bytes T seq of
           None \<Rightarrow> fst (attempts rp T seq) = Failed
         | Some p \<Rightarrow> \<exists>f. fst (attempts rp T seq) = Succeeded f (File (bytes p))
                        \<and> (p, f) \<in> set (snd (attempts rp T seq))"
proof -
  let ?fits = "\<lambda>p. real (bytes p) / (1024 * 1024) \<le> T"
  let ?m = "length seq - 1"
  note tests = deterministic_tests[OF det]
  from ne obtain p0 rest where seq: "seq = p0 # rest" by (cases seq) auto
  show ?thesis
  proof (cases "?fits (seq ! 0)")
    case True
    then have "within_target (rp (seq ! 0) First) T" by (simp add: tests)
    from attempts_first_within[where rp=rp and seq=seq, OF this] True show ?thesis
      by (simp add: reference_search_def seq tests)
  next
    case nofit: False
    then have rej: "rejected (rp (seq ! 0) First) T" by (simp add: tests)
    have ref: "reference_search bytes T seq = find ?fits rest"
      using nofit by (simp add: reference_search_def seq)
    show ?thesis
    proof (cases "far_from_target (rp (seq ! 0) First) T")
      case far: True
      note unf = attempts_far[where rp=rp and seq=seq, OF far]
      have last: "rp (seq ! ?m) Last = ReturnsTrue (File (bytes (seq ! ?m)))" using det by simp
      show ?thesis
      proof (cases "?fits (seq ! ?m)")
        case False
        have "\<not> ?fits p" if "p \<in> set seq" for p
        proof -
          from that obtain i where i: "i < length seq" "p = seq ! i" by (auto simp: in_set_conv_nth)
          then have "bytes (seq ! ?m) \<le> bytes p" using monotone_nth[OF mono, of i ?m] by simp
          then have "real (bytes (seq ! ?m)) / (1024 * 1024) \<le> real (bytes p) / (1024 * 1024)"
            by (simp add: divide_right_mono)
          then show ?thesis using False by linarith
        qed
        then have "reference_search bytes T seq = None"
          by (simp add: reference_search_def find_None_iff)
        moreover have "real (bytes (seq ! ?m)) / (1024 * 1024) > T" using False by simp
        ultimately show ?thesis unfolding unf using last
          by (simp add: Let_def get_file_size_mb_cases)
      next
        case True
        define j where "j = (LEAST i. ?fits (seq ! i))"
        have fj: "?fits (seq ! j)" unfolding j_def using True by (rule LeastI)
        have jm: "j \<le> ?m" unfolding j_def using True by (rule Least_le)
        have below: "\<not> ?fits (seq ! i)" if "i < j" for i
          using that unfolding j_def by (rule not_less_Least)
        have j0: "j \<noteq> 0" using fj nofit by (cases j) auto
        have pass: "\<forall>i. j \<le> i \<and> i < ?m \<longrightarrow> within_target (rp (seq ! i) (Back i)) T"
        proof (intro allI impI)
          fix i assume i: "j \<le> i \<and> i < ?m"
          then have "i < length seq" "j \<le> i" by linarith+
          then have "bytes (seq ! i) \<le> bytes (seq ! j)" by (intro monotone_nth[OF mono])
          then have "real (bytes (seq ! i)) / (1024 * 1024) \<le> real (bytes (seq ! j)) / (1024 * 1024)"
            by (simp add: divide_right_mono)
          then show "within_target (rp (seq ! i) (Back i)) T" using fj by (simp add: tests)
        qed
        have stop: "j = 0 \<or> rejected (rp (seq ! (j - 1)) (Back (j - 1))) T"
          using below[of "j - 1"] j0 by (simp add: tests)
        have bt: "backtrack rp T seq (rev [0..<?m]) (Last, File (bytes (seq ! ?m))) =
           (Some (if j = ?m then (Last, File (bytes (seq ! ?m))) else (Back j, File (bytes (seq ! j)))),
            map (\<lambda>i. (seq ! i, Back i)) (rev [j - 1..<?m]))"
          using backtrack_stops[where rp=rp and seq=seq and chosen="(Last, File (bytes (seq ! ?m)))", OF jm pass stop]
          by (simp add: tests)
        have wl: "\<not> real (bytes (seq ! ?m)) / (1024 * 1024) > T" using True by simp
        have "j < length seq" using jm ne by (cases seq) auto
        then have "reference_search bytes T seq = Some (seq ! j)"
          unfolding reference_search_def find_Some_iff using fj below by blast
        moreover have "\<exists>f. fst (attempts rp T seq) = Succeeded f (File (bytes (seq ! j)))
                        \<and> (seq ! j, f) \<in> set (snd (attempts rp T seq))"
        proof (cases "j = ?m")
          case True
          then show ?thesis unfolding unf using last wl bt
            by (simp add: Let_def get_file_size_mb_cases)
        next
          case False
          then have "j \<in> set (rev [j - 1..<?m])" using jm by auto
          then have "(seq ! j, Back j) \<in> set (map (\<lambda>i. (seq ! i, Back i)) (rev [j - 1..<?m]))"
            by (intro image_eqI[where x = j, THEN subst[OF set_map[symmetric], where P = "\<lambda>S. _ \<in> S"]])
               auto
          then show ?thesis unfolding unf using last wl bt False
            by (simp add: Let_def get_file_size_mb_cases)
        qed
        ultimately show ?thesis by simp
      qed
    next
      case nofar: False
      let ?ips = "map (\<lambda>i. (i, seq ! i)) [1..<length seq]"
      note unf = attempts_in_order[where rp=rp and seq=seq, OF rej nofar]
      have idx: "[1..<length seq] = map Suc [0..<length rest]"
        unfolding map_Suc_upt by (simp add: seq)
      have "map snd ?ips = map ((!) seq) (map Suc [0..<length rest])"
        unfolding idx by (simp add: comp_def)
      also have "\<dots> = map ((!) rest) [0..<length rest]"
        by (simp add: seq)
      also have "\<dots> = rest" by (rule map_nth)
      finally have snd_ips: "map snd ?ips = rest" .
      have fm: "find ?fits rest = map_option snd (find (\<lambda>(i, p). ?fits p) ?ips)"
        unfolding snd_ips[symmetric] find_over_map by (simp add: case_prod_beta)
      note sd = sequential_deterministic[OF det, of T ?ips]
      show ?thesis
      proof (cases "find (\<lambda>(i, p). ?fits p) ?ips")
        case None
        then show ?thesis using sd fm ref unf by simp
      next
        case (Some ip)
        then show ?thesis using sd fm ref unf by (cases ip) auto
      qed
    qed
  qed
qed

lemma scenario_A_monotone:
  "sorted_wrt (\<lambda>p q. scenario_A_bytes q \<le> scenario_A_bytes p) (params_sequence tier_1)"
  by (simp add: tier_1_def preset_def scenario_A_bytes_def)

lemma scenario_A_deterministic:
  "\<forall>p f. reconstruct scenario_A p f = ReturnsTrue (File (scenario_A_bytes p))"
  by (simp add: scenario_A_def)

lemma scenario_A_reference:
  "reference_search scenario_A_bytes 2 (params_sequence tier_1) = Some (preset 250 3 ''openjpeg'')"
  by (simp add: reference_search_def tier_1_def preset_def scenario_A_bytes_def)

text \<open>
  C3. When every reconstruction succeeds and writes a file whose size depends on the
  parameters only, and the sizes do not increase along the sequence of the tier, the
  search returns what the reference algorithm returns: it succeeds with a file written
  for the first parameters in index order whose size is within the target, and it fails
  exactly when no parameters of the tier give a size within the target.
\<close>

theorem search_agrees_with_reference:
  assumes "search_begins t pdf_path s"
    and "\<forall>p f. reconstruct t p f = ReturnsTrue (File (bytes p))"
    and "sorted_wrt (\<lambda>p q. bytes q \<le> bytes p) (params_sequence s)"
  shows "(case reference_search bytes target_size_mb (params_sequence s) of
            None \<Rightarrow>
              result (run_iterative_compression t pdf_path final_path dir target_size_mb keep) = Failed
          | Some p \<Rightarrow>
              \<exists>f. result (run_iterative_compression t pdf_path final_path dir target_size_mb keep)
                     = Succeeded f (File (bytes p))
                 \<and> (p, f) \<in> set (calls (run_iterative_compression t pdf_path final_path dir
                                          target_size_mb keep)))
       \<and> (result (run_iterative_compression t pdf_path final_path dir target_size_mb keep) = Failed
            \<longleftrightarrow> (\<forall>p \<in> set (params_sequence s).
                    \<not> real (bytes p) / (1024 * 1024) \<le> target_size_mb))"
proof -
  let ?R = "run_iterative_compression t pdf_path final_path dir target_size_mb keep"
  let ?seq = "params_sequence s"
  have ne: "?seq \<noteq> []"
    using assms(1) by (auto simp: search_begins_def STRATEGIES_nonempty split: sum.splits)
  have R: "result ?R = fst (attempts (reconstruct t) target_size_mb ?seq)"
    "calls ?R = snd (attempts (reconstruct t) target_size_mb ?seq)"
    unfolding run_iterative_compression_begins[OF assms(1)] by simp_all
  have first: "case reference_search bytes target_size_mb ?seq of
            None \<Rightarrow> result ?R = Failed
          | Some p \<Rightarrow> \<exists>f. result ?R = Succeeded f (File (bytes p)) \<and> (p, f) \<in> set (calls ?R)"
    unfolding R by (rule attempts_deterministic[OF ne assms(2,3)])
  have second: "result ?R = Failed
            \<longleftrightarrow> (\<forall>p \<in> set ?seq. \<not> real (bytes p) / (1024 * 1024) \<le> target_size_mb)"
  proof (cases "reference_search bytes target_size_mb ?seq")
    case None
    then have "result ?R = Failed" using first by simp
    moreover have "\<forall>p \<in> set ?seq. \<not> real (bytes p) / (1024 * 1024) \<le> target_size_mb"
      using None unfolding reference_search_def find_None_iff by blast
    ultimately show ?thesis by blast
  next
    case (Some p)
    then have "p \<in> set ?seq \<and> real (bytes p) / (1024 * 1024) \<le> target_size_mb"
      unfolding reference_search_def find_Some_iff by auto
    moreover have "result ?R \<noteq> Failed" using first Some by auto
    ultimately show ?thesis by blast
  qed
  show ?thesis using first second by blast
qed

theorem search_agrees_with_reference_witness:
  "search_begins scenario_A (File 8388608) tier_1
   \<and> (\<forall>p f. reconstruct scenario_A p f = ReturnsTrue (File (scenario_A_bytes p)))
   \<and> sorted_wrt (\<lambda>p q. scenario_A_bytes q \<le> scenario_A_bytes p) (params_sequence tier_1)
   \<and> reference_search scenario_A_bytes 2 (params_sequence tier_1) = Some (preset 250 3 ''openjpeg'')
   \<and> (\<exists>f. result (run_iterative_compression scenario_A (File 8388608) Compressed Map.empty 2 False)
              = Succeeded f (File 1887437)
          \<and> (preset 250 3 ''openjpeg'', f)
              \<in> set (calls (run_iterative_compression scenario_A (File 8388608) Compressed
                               Map.empty 2 False)))"
proof -
  have b: "scenario_A_bytes (preset 250 3 ''openjpeg'') = 1887437"
    by (simp add: scenario_A_bytes_def preset_def)
  show ?thesis
    using search_agrees_with_reference[OF scenario_A_begins scenario_A_deterministic
            scenario_A_monotone, where target_size_mb=2 and final_path=Compressed
            and dir=Map.empty and keep=False]
      scenario_A_begins scenario_A_deterministic scenario_A_monotone
    unfolding scenario_A_reference by (simp add: b)
qed

subsection \<open>An output file that is missing\<close>

text \<open>
  C10, as stated, fails: \<^verbatim>\<open>get_file_size_mb\<close> is not total. It catches
  \<^verbatim>\<open>FileNotFoundError\<close> only, so for a path that cannot be examined the error of
  \<^verbatim>\<open>os.path.getsize\<close> escapes it.
\<close>

theorem other_os_errors_escape:
  "get_file_size_mb Inaccessible = Inl OtherOSError"
  by (simp add: get_file_size_mb_def getsize_def)

text \<open>
  C10, amended. \<^verbatim>\<open>get_file_size_mb\<close> returns the size of a file, returns 0 for a path
  that names no file, and never lets a \<^verbatim>\<open>FileNotFoundError\<close> escape. So, for a target that
  is not negative, an attempt whose reconstruction returns true and leaves no output file
  passes the test \<open>size \<le> target\<close> wherever the search makes it: the first attempt returns
  success (and nothing is copied), the attempt with the last parameters is not a failure,
  a backtracking candidate becomes the chosen file, and an attempt of the iteration in
  order returns success.
\<close>

theorem missing_output_measured_as_zero:
  assumes "0 \<le> target_size_mb"
  shows "get_file_size_mb (File n) = Inr (real n / (1024 * 1024))
       \<and> get_file_size_mb Missing = Inr 0
       \<and> get_file_size_mb file_path \<noteq> Inl FileNotFoundError
       \<and> within_target (ReturnsTrue Missing) target_size_mb
       \<and> (search_begins t pdf_path s
            \<and> reconstruct t (params_sequence s ! 0) First = ReturnsTrue Missing \<longrightarrow>
          run_iterative_compression t pdf_path final_path dir target_size_mb keep =
            \<lparr>result = Succeeded First Missing, calls = [(params_sequence s ! 0, First)],
             temp_dir = release keep, output_dir = dir\<rparr>)
       \<and> (search_begins t pdf_path s
            \<and> far_from_target (reconstruct t (params_sequence s ! 0) First) target_size_mb
            \<and> reconstruct t (params_sequence s ! (length (params_sequence s) - 1)) Last
                = ReturnsTrue Missing \<longrightarrow>
          result (run_iterative_compression t pdf_path final_path dir target_size_mb keep)
            \<noteq> Failed)
       \<and> (rp (seq ! idx) (Back idx) = ReturnsTrue Missing \<longrightarrow>
          backtrack rp target_size_mb seq (idx # idxs) chosen =
            (fst (backtrack rp target_size_mb seq idxs (Back idx, Missing)),
             (seq ! idx, Back idx) # snd (backtrack rp target_size_mb seq idxs (Back idx, Missing))))
       \<and> (rp p (Numbered i) = ReturnsTrue Missing \<longrightarrow>
          sequential rp target_size_mb ((i, p) # rest) =
            (Succeeded (Numbered i) Missing, [(p, Numbered i)]))"
proof -
  have size: "get_file_size_mb (File n) = Inr (real n / (1024 * 1024))"
    by (simp add: get_file_size_mb_cases)
  have caught: "get_file_size_mb file_path \<noteq> Inl FileNotFoundError"
    by (cases file_path) (simp_all add: get_file_size_mb_cases)
  have zero: "get_file_size_mb Missing = Inr 0" by (simp add: get_file_size_mb_cases)
  have test: "within_target (ReturnsTrue Missing) target_size_mb"
    using assms by (simp add: within_target_def zero)
  have first: "run_iterative_compression t pdf_path final_path dir target_size_mb keep =
            \<lparr>result = Succeeded First Missing, calls = [(params_sequence s ! 0, First)],
             temp_dir = release keep, output_dir = dir\<rparr>"
    if "search_begins t pdf_path s" "reconstruct t (params_sequence s ! 0) First = ReturnsTrue Missing"
  proof -
    have w: "within_target (reconstruct t (params_sequence s ! 0) First) target_size_mb"
      using that(2) test by simp
    show ?thesis
      unfolding run_iterative_compression_begins[OF that(1)]
        attempts_first_within[where rp="reconstruct t" and seq="params_sequence s", OF w]
      using that(2) by (simp add: save_result_def output_state_def copy_file_def)
  qed
  have last: "result (run_iterative_compression t pdf_path final_path dir target_size_mb keep)
            \<noteq> Failed"
    if "search_begins t pdf_path s"
      "far_from_target (reconstruct t (params_sequence s ! 0) First) target_size_mb"
      "reconstruct t (params_sequence s ! (length (params_sequence s) - 1)) Last = ReturnsTrue Missing"
    unfolding run_iterative_compression_begins[OF that(1)]
      attempts_far[where rp="reconstruct t" and seq="params_sequence s", OF that(2)]
    using that(3) assms by (simp add: Let_def zero split: prod.splits option.splits)
  have bt: "backtrack rp target_size_mb seq (idx # idxs) chosen =
            (fst (backtrack rp target_size_mb seq idxs (Back idx, Missing)),
             (seq ! idx, Back idx) # snd (backtrack rp target_size_mb seq idxs (Back idx, Missing)))"
    if "rp (seq ! idx) (Back idx) = ReturnsTrue Missing"
    using that assms by (simp add: Let_def zero split: prod.splits)
  have seqn: "sequential rp target_size_mb ((i, p) # rest) =
            (Succeeded (Numbered i) Missing, [(p, Numbered i)])"
    if "rp p (Numbered i) = ReturnsTrue Missing"
    using that assms by (simp add: Let_def zero)
  show ?thesis using size caught zero test first last bt seqn by blast
qed

theorem missing_output_measured_as_zero_witness:
  "(0::real) \<le> 2
   \<and> search_begins silent_tools (File 8388608) tier_1
   \<and> reconstruct silent_tools (params_sequence tier_1 ! 0) First = ReturnsTrue Missing
   \<and> run_iterative_compression silent_tools (File 8388608) Compressed Map.empty 2 False =
       \<lparr>result = Succeeded First Missing, calls = [(preset 300 1 ''openjpeg'', First)],
        temp_dir = Deleted, output_dir = Map.empty\<rparr>"
proof -
  have z: "(0::real) \<le> 2" by simp
  have r: "reconstruct silent_tools (params_sequence tier_1 ! 0) First = ReturnsTrue Missing"
    by (simp add: silent_tools_def)
  have "run_iterative_compression silent_tools (File 8388608) Compressed Map.empty 2 False =
            \<lparr>result = Succeeded First Missing, calls = [(params_sequence tier_1 ! 0, First)],
             temp_dir = release False, output_dir = Map.empty\<rparr>"
    using missing_output_measured_as_zero[OF z, where t=silent_tools and pdf_path="File 8388608"
            and s=tier_1 and final_path=Compressed and dir=Map.empty and keep=False]
      silent_tools_begin r
    by blast
  then show ?thesis using z silent_tools_begin r by (simp add: release_def tier_1_def)
qed

section \<open>The splitting of a document\<close>

subsection \<open>Facts about the two phases\<close>

lemma split_phase_None_iff:
  assumes "0 \<le> pps"
  shows "split_phase sp pps tp [i..j] = None \<longleftrightarrow>
           (\<exists>n \<in> set [i..j]. n * pps + 1 \<le> tp \<and> \<not> sp (n + 1) (n * pps + 1) (min ((n + 1) * pps) tp))"
proof (induction i j rule: upto.induct)
  case (1 i j)
  show ?case
  proof (cases "i \<le> j")
    case False
    then show ?thesis by simp
  next
    case True
    then have unf: "[i..j] = i # [i + 1..j]" by (simp add: upto_rec1)
    show ?thesis
    proof (cases "i * pps + 1 > tp")
      case out: True
      have "\<not> n * pps + 1 \<le> tp" if "n \<in> set [i..j]" for n
      proof -
        have "i \<le> n" using that by simp
        then have "i * pps \<le> n * pps" using assms by (rule mult_right_mono)
        then show ?thesis using out by linarith
      qed
      then show ?thesis using out unf by (auto simp: Let_def)
    next
      case inside: False
      show ?thesis
      proof (cases "sp (i + 1) (i * pps + 1) (min ((i + 1) * pps) tp)")
        case False
        then show ?thesis using inside unf by (auto simp: Let_def)
      next
        case True
        then show ?thesis using inside unf "1.IH"[OF \<open>i \<le> j\<close>] by (auto simp: Let_def)
      qed
    qed
  qed
qed

lemma split_phase_length:
  assumes "0 \<le> pps" and "split_phase sp pps tp [i..j] = Some rs"
  shows "length rs = length (filter (\<lambda>n. n * pps + 1 \<le> tp) [i..j])"
  using assms(2)
proof (induction i j arbitrary: rs rule: upto.induct)
  case (1 i j)
  show ?case
  proof (cases "i \<le> j")
    case False
    then show ?thesis using "1.prems" by simp
  next
    case True
    then have unf: "[i..j] = i # [i + 1..j]" by (simp add: upto_rec1)
    show ?thesis
    proof (cases "i * pps + 1 > tp")
      case out: True
      have "\<not> n * pps + 1 \<le> tp" if "n \<in> set [i..j]" for n
      proof -
        have "i \<le> n" using that by simp
        then have "i * pps \<le> n * pps" using assms(1) by (rule mult_right_mono)
        then show ?thesis using out by linarith
      qed
      then have "filter (\<lambda>n. n * pps + 1 \<le> tp) [i..j] = []" by (simp add: filter_empty_conv)
      moreover have "rs = []" using "1.prems" out unf by (simp add: Let_def)
      ultimately show ?thesis by simp
    next
      case inside: False
      from "1.prems" unf inside obtain rs' where
        rs': "split_phase sp pps tp [i + 1..j] = Some rs'" and rs: "rs = (i * pps + 1, min ((i + 1) * pps) tp) # rs'"
        by (auto simp: Let_def split: if_splits)
      have "length rs' = length (filter (\<lambda>n. n * pps + 1 \<le> tp) [i + 1..j])"
        using "1.IH"[OF True rs'] .
      then show ?thesis using rs inside unf by simp
    qed
  qed
qed

lemma run_aggressive_compression_result:
  "result (run_aggressive_compression t final_path dir T keep) =
   result (run_aggressive_compression t final_path' dir' T keep')"
  by (simp add: run_aggressive_compression_def Let_def split: prod.splits)

lemma compresses_iff:
  "compresses (pt n) a \<longleftrightarrow>
     (\<exists>c st. result (run_aggressive_compression (pt n) final_path dir (target_size a)
                       (keep_temp_on_failure a)) = Succeeded c st)"
  unfolding compresses_def
    run_aggressive_compression_result[of "pt n" final_path dir "target_size a" "keep_temp_on_failure a"
      Compressed Map.empty "keep_temp_on_failure a"]
  by (auto split: search_result.splits)

lemma compress_phase_ok:
  "fst (compress_phase pt a i ps split_files dir) \<longleftrightarrow>
     (\<forall>n \<in> set [i + 1..i + int (length ps)]. compresses (pt n) a)"
proof (induction ps arbitrary: i split_files dir)
  case Nil
  show ?case by simp
next
  case (Cons part_path rest)
  let ?r = "run_aggressive_compression (pt (i + 1)) (PartCompressed (i + 1)) dir (target_size a)
              (keep_temp_on_failure a)"
  have unf: "[i + 1..i + int (length (part_path # rest))] = (i + 1) # [i + 1 + 1..i + 1 + int (length rest)]"
    by (simp add: upto_rec1 add.assoc)
  note c = compresses_iff[of pt "i + 1" a "PartCompressed (i + 1)" dir]
  show ?case
  proof (cases "result ?r")
    case Raised
    then show ?thesis unfolding unf using c by (simp add: Let_def)
  next
    case Failed
    then show ?thesis unfolding unf using c by (simp add: Let_def)
  next
    case (Succeeded chosen st)
    let ?d1 = "unlink_if_exists (PartCompressed (i + 1))
                 (copy_file (file_at (output_dir ?r) (PartCompressed (i + 1))) (Part (i + 1))
                    (output_dir ?r))"
    obtain b d rs where
      rec: "compress_phase pt a (i + 1) rest (split_files @ [Part (i + 1)]) ?d1 = (b, d, rs)"
      by (cases "compress_phase pt a (i + 1) rest (split_files @ [Part (i + 1)]) ?d1") auto
    have whole: "compress_phase pt a i (part_path # rest) split_files dir = (b, d, ?r # rs)"
      using Succeeded rec by (simp add: Let_def)
    have IH: "b \<longleftrightarrow> (\<forall>n \<in> set [i + 1 + 1..i + 1 + int (length rest)]. compresses (pt n) a)"
      using Cons.IH[of "i + 1" "split_files @ [Part (i + 1)]" ?d1] rec by simp
    have "compresses (pt (i + 1)) a" using c Succeeded by simp
    then show ?thesis unfolding unf whole using IH by simp
  qed
qed

lemma compress_phase_count:
  assumes "\<not> fst (compress_phase pt a i ps split_files dir)"
  shows "length (snd (snd (compress_phase pt a i ps split_files dir))) =
           length (takeWhile (\<lambda>n. compresses (pt n) a) [i + 1..i + int (length ps)]) + 1"
  using assms
proof (induction ps arbitrary: i split_files dir)
  case Nil
  then show ?case by simp
next
  case (Cons part_path rest)
  let ?r = "run_aggressive_compression (pt (i + 1)) (PartCompressed (i + 1)) dir (target_size a)
              (keep_temp_on_failure a)"
  have unf: "[i + 1..i + int (length (part_path # rest))] = (i + 1) # [i + 1 + 1..i + 1 + int (length rest)]"
    by (simp add: upto_rec1 add.assoc)
  note c = compresses_iff[of pt "i + 1" a "PartCompressed (i + 1)" dir]
  show ?case
  proof (cases "result ?r")
    case Raised
    then show ?thesis unfolding unf using c by (simp add: Let_def)
  next
    case Failed
    then show ?thesis unfolding unf using c by (simp add: Let_def)
  next
    case (Succeeded chosen st)
    let ?d1 = "unlink_if_exists (PartCompressed (i + 1))
                 (copy_file (file_at (output_dir ?r) (PartCompressed (i + 1))) (Part (i + 1))
                    (output_dir ?r))"
    obtain b d rs where
      rec: "compress_phase pt a (i + 1) rest (split_files @ [Part (i + 1)]) ?d1 = (b, d, rs)"
      by (cases "compress_phase pt a (i + 1) rest (split_files @ [Part (i + 1)]) ?d1") auto
    have whole: "compress_phase pt a i (part_path # rest) split_files dir = (b, d, ?r # rs)"
      using Succeeded rec by (simp add: Let_def)
    have nb: "\<not> b" using Cons.prems whole by simp
    have IH: "length rs =
                length (takeWhile (\<lambda>n. compresses (pt n) a) [i + 1 + 1..i + 1 + int (length rest)]) + 1"
      using Cons.IH[of "i + 1" "split_files @ [Part (i + 1)]" ?d1] rec nb by simp
    have "compresses (pt (i + 1)) a" using c Succeeded by simp
    then show ?thesis unfolding unf whole using IH by simp
  qed
qed

lemma clean_up_apply:
  "clean_up split_files dir f = (if f \<in> set split_files then None else dir f)"
  unfolding clean_up_def
  by (induction split_files arbitrary: dir) (auto simp: unlink_if_exists_def)

lemma run_aggressive_compression_dir:
  "output_dir (run_aggressive_compression t final_path dir T keep) f =
     (if f = final_path
      then (case result (run_aggressive_compression t final_path dir T keep) of
              Succeeded chosen (File n) \<Rightarrow> Some n | _ \<Rightarrow> dir f)
      else dir f)"
  by (auto simp: run_aggressive_compression_def Let_def save_result_def copy_file_def
           split: prod.splits search_result.splits stat.splits)

lemma compress_phase_failed_nonempty:
  "compress_phase pt a i ps split_files dir = (False, dir', rs) \<Longrightarrow> rs \<noteq> []"
  by (cases ps) (auto simp: Let_def split: search_result.splits prod.splits)

lemma compress_phase_failed:
  assumes "compress_phase pt a i ps split_files dir = (False, dir', rs)"
  shows "dir' f =
           (if f \<in> set split_files
               \<or> (\<exists>n. (f = Part n \<or> f = PartCompressed n) \<and> i + 1 \<le> n \<and> n < i + int (length rs))
            then None else dir f)"
  using assms
proof (induction ps arbitrary: i split_files dir rs)
  case Nil
  then show ?case by simp
next
  case (Cons part_path rest)
  let ?r = "run_aggressive_compression (pt (i + 1)) (PartCompressed (i + 1)) dir (target_size a)
              (keep_temp_on_failure a)"
  note od = run_aggressive_compression_dir[of "pt (i + 1)" "PartCompressed (i + 1)" dir
              "target_size a" "keep_temp_on_failure a"]
  show ?case
  proof (cases "result ?r")
    case Raised
    then have "dir' = clean_up split_files (output_dir ?r)" "rs = [?r]"
      using Cons.prems by (simp_all add: Let_def)
    then show ?thesis using Raised od by (auto simp: clean_up_apply)
  next
    case Failed
    then have "dir' = clean_up split_files (output_dir ?r)" "rs = [?r]"
      using Cons.prems by (simp_all add: Let_def)
    then show ?thesis using Failed od by (auto simp: clean_up_apply)
  next
    case (Succeeded chosen st)
    let ?d1 = "unlink_if_exists (PartCompressed (i + 1))
                 (copy_file (file_at (output_dir ?r) (PartCompressed (i + 1))) (Part (i + 1))
                    (output_dir ?r))"
    obtain rs' where rec: "compress_phase pt a (i + 1) rest (split_files @ [Part (i + 1)]) ?d1
                             = (False, dir', rs')" and rs: "rs = ?r # rs'"
      using Cons.prems Succeeded by (auto simp: Let_def split: prod.splits)
    have ne: "rs' \<noteq> []" using compress_phase_failed_nonempty[OF rec] .
    have IH: "dir' f =
           (if f \<in> set (split_files @ [Part (i + 1)])
               \<or> (\<exists>n. (f = Part n \<or> f = PartCompressed n) \<and> i + 1 + 1 \<le> n
                        \<and> n < i + 1 + int (length rs'))
            then None else ?d1 f)"
      using Cons.IH[OF rec] .
    have d1: "?d1 f = (if f = PartCompressed (i + 1) then None
                       else if f = Part (i + 1)
                       then (case output_dir ?r (PartCompressed (i + 1)) of
                               None \<Rightarrow> dir f | Some n \<Rightarrow> Some n)
                       else dir f)"
    proof (cases "output_dir ?r (PartCompressed (i + 1))")
      case None
      then show ?thesis using od[of f]
        by (auto simp: unlink_if_exists_def copy_file_def file_at_def)
    next
      case (Some m)
      then show ?thesis using od[of f]
        by (auto simp: unlink_if_exists_def copy_file_def file_at_def)
    qed
    have len: "0 < length rs'" using ne by simp
    show ?thesis
    proof (cases "f = Part (i + 1) \<or> f = PartCompressed (i + 1)")
      case True
      then have "dir' f = None" using IH d1 by auto
      moreover have "\<exists>n. (f = Part n \<or> f = PartCompressed n) \<and> i + 1 \<le> n \<and> n < i + int (length rs)"
        using True rs len by (intro exI[of _ "i + 1"]) auto
      ultimately show ?thesis by simp
    next
      case False
      have "(\<exists>n. (f = Part n \<or> f = PartCompressed n) \<and> i + 1 + 1 \<le> n \<and> n < i + 1 + int (length rs'))
            \<longleftrightarrow> (\<exists>n. (f = Part n \<or> f = PartCompressed n) \<and> i + 1 \<le> n \<and> n < i + int (length rs))"
        using False rs by (auto simp: less_le)
      then show ?thesis using IH d1 False by auto
    qed
  qed
qed

lemma compress_phase_searches:
  assumes "compress_phase pt a i ps split_files dir = (False, dir', rs)"
  shows "(\<forall>r \<in> set (butlast rs). \<exists>c st. result r = Succeeded c st)
       \<and> (\<forall>c st. result (last rs) \<noteq> Succeeded c st)"
  using assms
proof (induction ps arbitrary: i split_files dir rs)
  case Nil
  then show ?case by simp
next
  case (Cons part_path rest)
  let ?r = "run_aggressive_compression (pt (i + 1)) (PartCompressed (i + 1)) dir (target_size a)
              (keep_temp_on_failure a)"
  show ?case
  proof (cases "result ?r")
    case Raised
    then have "rs = [?r]" using Cons.prems by (simp add: Let_def)
    then show ?thesis using Raised by simp
  next
    case Failed
    then have "rs = [?r]" using Cons.prems by (simp add: Let_def)
    then show ?thesis using Failed by simp
  next
    case (Succeeded chosen st)
    then obtain d1 rs' where rec: "compress_phase pt a (i + 1) rest (split_files @ [Part (i + 1)]) d1
                             = (False, dir', rs')" and rs: "rs = ?r # rs'"
      using Cons.prems by (auto simp: Let_def split: prod.splits)
    have ne: "rs' \<noteq> []" using compress_phase_failed_nonempty[OF rec] .
    show ?thesis using Cons.IH[OF rec] rs ne Succeeded by simp
  qed
qed

lemma try_split_and_compress_failed:
  assumes "try_split_and_compress sp pt dir a k total_pages = Inr t" and "\<not> ok t"
  shows "dir_after t f =
           (if \<exists>n. (f = Part n \<or> f = PartCompressed n) \<and> 1 \<le> n \<and> n < int (length (searches t))
            then None else dir f)"
    and "(\<forall>r \<in> set (butlast (searches t)). \<exists>c st. result r = Succeeded c st)
         \<and> (searches t \<noteq> [] \<longrightarrow> (\<forall>c st. result (last (searches t)) \<noteq> Succeeded c st))"
proof -
  let ?pps = "\<lceil>real_of_int total_pages / real_of_int k\<rceil>"
  have k: "k \<noteq> 0" using assms(1) by (auto simp: try_split_and_compress_def)
  show "dir_after t f =
           (if \<exists>n. (f = Part n \<or> f = PartCompressed n) \<and> 1 \<le> n \<and> n < int (length (searches t))
            then None else dir f)"
  proof (cases "split_phase sp ?pps total_pages [0..k - 1]")
    case None
    then have "dir_after t = dir" "searches t = []"
      using assms(1) k by (auto simp: try_split_and_compress_def Let_def)
    then show ?thesis by auto
  next
    case (Some temp_split_files)
    obtain b dir' rs where cp: "compress_phase pt a 0 temp_split_files [] dir = (b, dir', rs)"
      by (cases "compress_phase pt a 0 temp_split_files [] dir") auto
    then have t: "ok t = b" "dir_after t = dir'" "searches t = rs"
      using assms(1) k Some by (auto simp: try_split_and_compress_def Let_def)
    then have "compress_phase pt a 0 temp_split_files [] dir = (False, dir', rs)"
      using cp assms(2) by simp
    from compress_phase_failed[OF this, of f] show ?thesis using t by simp
  qed
  show "(\<forall>r \<in> set (butlast (searches t)). \<exists>c st. result r = Succeeded c st)
         \<and> (searches t \<noteq> [] \<longrightarrow> (\<forall>c st. result (last (searches t)) \<noteq> Succeeded c st))"
  proof (cases "split_phase sp ?pps total_pages [0..k - 1]")
    case None
    then have "searches t = []"
      using assms(1) k by (auto simp: try_split_and_compress_def Let_def)
    then show ?thesis by simp
  next
    case (Some temp_split_files)
    obtain b dir' rs where cp: "compress_phase pt a 0 temp_split_files [] dir = (b, dir', rs)"
      by (cases "compress_phase pt a 0 temp_split_files [] dir") auto
    then have t: "ok t = b" "dir_after t = dir'" "searches t = rs"
      using assms(1) k Some by (auto simp: try_split_and_compress_def Let_def)
    then have "compress_phase pt a 0 temp_split_files [] dir = (False, dir', rs)"
      using cp assms(2) by simp
    from compress_phase_searches[OF this] show ?thesis using t by simp
  qed
qed

lemma try_split_and_compress_failed_clean:
  assumes "try_split_and_compress sp pt dir a k total_pages = Inr t" and "\<not> ok t"
    and "no_part_files dir"
  shows "dir_after t = dir"
proof
  fix f
  show "dir_after t f = dir f"
    using try_split_and_compress_failed(1)[OF assms(1,2), of f] assms(3)
    by (auto simp: no_part_files_def)
qed

lemma split_loop_failed:
  assumes "no_part_files dir"
  shows "(\<forall>t \<in> set (split_attempts (split_loop w a total_pages ks dir)). \<not> ok t \<longrightarrow> dir_after t = dir)
       \<and> (split_success (split_loop w a total_pages ks dir) \<noteq> Inr True \<longrightarrow>
            split_dir (split_loop w a total_pages ks dir) = dir)"
proof (induction ks)
  case Nil
  show ?case by simp
next
  case (Cons k ks)
  show ?case
  proof (cases "try_split_and_compress (qpdf w k) (part_tools w k) dir a k total_pages")
    case (Inl e)
    then show ?thesis by simp
  next
    case (Inr t)
    show ?thesis
    proof (cases "ok t")
      case True
      then show ?thesis using Inr by simp
    next
      case False
      have "dir_after t = dir"
        using try_split_and_compress_failed_clean[OF Inr False assms] .
      then show ?thesis using Inr False Cons.IH by (simp add: Let_def)
    qed
  qed
qed

lemma calculate_split_strategy_ge2: "2 \<le> calculate_split_strategy x m"
proof -
  define c where "c = \<lceil>x / 25\<rceil>"
  have "calculate_split_strategy x m = (if min m c < 2 then 2 else min m c)"
    unfolding calculate_split_strategy_def Let_def c_def by (rule refl)
  then show ?thesis by (auto simp: min_def)
qed

lemma aggressive_scenario_A:
  "run_aggressive_compression scenario_A final_path dir 2 keep =
     \<lparr>result = Succeeded (Numbered 0) (File 1572864),
      calls = [(\<lparr>dpi = 150, bg_downsample = 4, jpeg2000_encoder = None\<rparr>, Numbered 0)],
      temp_dir = release keep, output_dir = dir(final_path \<mapsto> 1572864)\<rparr>"
  by (simp add: run_aggressive_compression_def aggressive_params_def scenario_A_def
      scenario_A_bytes_def Let_def upt_rec get_file_size_mb_cases save_result_def copy_file_def)

lemma aggressive_no_tools:
  "run_aggressive_compression no_tools final_path dir T keep =
     \<lparr>result = Failed, calls = [], temp_dir = release keep, output_dir = dir\<rparr>"
  by (simp add: run_aggressive_compression_def no_tools_def Let_def)

lemma pages_per_split_bounds:
  fixes total_pages k :: int
  assumes "1 \<le> total_pages" "1 \<le> k"
  shows "1 \<le> \<lceil>real_of_int total_pages / real_of_int k\<rceil>"
    and "total_pages \<le> k * \<lceil>real_of_int total_pages / real_of_int k\<rceil>"
proof -
  let ?c = "\<lceil>real_of_int total_pages / real_of_int k\<rceil>"
  have pos: "0 < real_of_int total_pages / real_of_int k" using assms by simp
  then show "1 \<le> ?c" by linarith
  have kpos: "0 < real_of_int k" using assms(2) by simp
  have "real_of_int total_pages / real_of_int k \<le> real_of_int ?c" by linarith
  then have "real_of_int total_pages / real_of_int k * real_of_int k \<le> real_of_int ?c * real_of_int k"
    using kpos by (intro mult_right_mono) auto
  then have "real_of_int total_pages \<le> real_of_int ?c * real_of_int k"
    using kpos by simp
  then have "real_of_int total_pages \<le> real_of_int (k * ?c)" by (simp add: mult.commute)
  then show "total_pages \<le> k * ?c" by linarith
qed

lemma try_split_and_compress_outcome:
  assumes "1 \<le> k" and "1 \<le> total_pages"
  shows "\<exists>t. try_split_and_compress sp pt dir a k total_pages = Inr t
           \<and> parts t = k
           \<and> (ok t \<longleftrightarrow> \<not> extraction_fails sp k total_pages \<and> \<not> compression_fails pt a k total_pages)
           \<and> (ranges t = None \<longleftrightarrow> extraction_fails sp k total_pages)
           \<and> (extraction_fails sp k total_pages \<longrightarrow> searches t = [] \<and> dir_after t = dir)
           \<and> (\<not> extraction_fails sp k total_pages \<and> compression_fails pt a k total_pages \<longrightarrow>
                length (searches t) =
                  length (takeWhile (\<lambda>n. compresses (pt n) a) [1..parts_cut k total_pages]) + 1)
           \<and> (\<forall>rs. ranges t = Some rs \<longrightarrow> int (length rs) = parts_cut k total_pages)"
proof -
  define pps where "pps = \<lceil>real_of_int total_pages / real_of_int k\<rceil>"
  have pps: "0 \<le> pps" using pages_per_split_bounds(1)[OF assms(2,1)] by (simp add: pps_def)
  have k: "k \<noteq> 0" using assms(1) by simp
  have "extraction_fails sp k total_pages \<longleftrightarrow>
          (\<exists>n \<in> set [0..k - 1]. n * pps + 1 \<le> total_pages
             \<and> \<not> sp (n + 1) (n * pps + 1) (min ((n + 1) * pps) total_pages))"
    by (simp add: extraction_fails_def Let_def pps_def)
  also have "\<dots> \<longleftrightarrow> split_phase sp pps total_pages [0..k - 1] = None"
    by (rule split_phase_None_iff[OF pps, symmetric])
  finally have ef: "extraction_fails sp k total_pages
                      \<longleftrightarrow> split_phase sp pps total_pages [0..k - 1] = None" .
  show ?thesis
  proof (cases "split_phase sp pps total_pages [0..k - 1]")
    case None
    then have "try_split_and_compress sp pt dir a k total_pages =
                 Inr \<lparr>parts = k, ok = False, ranges = None, searches = [],
                      split_temp_dir = release (keep_temp_on_failure a), dir_after = dir\<rparr>"
      using k by (simp add: try_split_and_compress_def Let_def pps_def)
    then show ?thesis using ef None by simp
  next
    case (Some rs)
    obtain b d ss where cp: "compress_phase pt a 0 rs [] dir = (b, d, ss)"
      by (cases "compress_phase pt a 0 rs [] dir") auto
    have t: "try_split_and_compress sp pt dir a k total_pages =
                 Inr \<lparr>parts = k, ok = b, ranges = Some rs, searches = ss,
                      split_temp_dir = release (keep_temp_on_failure a), dir_after = d\<rparr>"
      using k Some cp by (simp add: try_split_and_compress_def Let_def pps_def)
    have nef: "\<not> extraction_fails sp k total_pages" using ef Some by simp
    have len: "int (length rs) = parts_cut k total_pages"
      using split_phase_length[OF pps Some] by (simp add: parts_cut_def Let_def pps_def)
    have b: "b \<longleftrightarrow> \<not> compression_fails pt a k total_pages"
      using compress_phase_ok[of pt a 0 rs "[]" dir] cp len
      by (simp add: compression_fails_def)
    have cnt: "length ss =
                 length (takeWhile (\<lambda>n. compresses (pt n) a) [1..parts_cut k total_pages]) + 1"
      if "compression_fails pt a k total_pages"
      using compress_phase_count[of pt a 0 rs "[]" dir] cp len b that by simp
    show ?thesis using t nef len b cnt by simp
  qed
qed

lemma split_loop_outcome:
  assumes "no_part_files dir" and "1 \<le> get_pdf_page_count w" and "\<forall>k \<in> set ks. 1 \<le> k"
  shows "split_success (split_loop w a (get_pdf_page_count w) ks dir)
           = Inr (\<exists>k \<in> set ks. \<not> attempt_fails w a k)
       \<and> ((\<forall>k \<in> set ks. attempt_fails w a k) \<longrightarrow>
            map parts (split_attempts (split_loop w a (get_pdf_page_count w) ks dir)) = ks
            \<and> split_dir (split_loop w a (get_pdf_page_count w) ks dir) = dir)"
  using assms(3)
proof (induction ks)
  case Nil
  show ?case by simp
next
  case (Cons k ks)
  have k: "1 \<le> k" and rest: "\<forall>k \<in> set ks. 1 \<le> k" using Cons.prems by simp_all
  from try_split_and_compress_outcome[OF k assms(2), of "qpdf w k" "part_tools w k" dir a]
  obtain t where t: "try_split_and_compress (qpdf w k) (part_tools w k) dir a k (get_pdf_page_count w) = Inr t"
    and p: "parts t = k"
    and ok: "ok t \<longleftrightarrow> \<not> attempt_fails w a k"
    unfolding attempt_fails_def by blast
  show ?case
  proof (cases "ok t")
    case True
    then show ?thesis using t ok by auto
  next
    case False
    have d: "dir_after t = dir"
      using try_split_and_compress_failed_clean[OF t False assms(1)] .
    show ?thesis using t False ok p d Cons.IH[OF rest] by (simp add: Let_def)
  qed
qed

lemma run_splitting_protocol_loop:
  assumes "1 \<le> get_pdf_page_count w" and "get_file_size_mb (pdf w) = Inr size_mb"
  shows "run_splitting_protocol w dir a =
           split_loop w a (get_pdf_page_count w)
             [calculate_split_strategy size_mb (max_splits a)..max_splits a] dir"
  using assms by (simp add: run_splitting_protocol_def Let_def)

lemma run_splitting_protocol_failed:
  assumes "no_part_files dir"
  shows "(\<forall>t \<in> set (split_attempts (run_splitting_protocol w dir a)). \<not> ok t \<longrightarrow> dir_after t = dir)
       \<and> (split_success (run_splitting_protocol w dir a) \<noteq> Inr True \<longrightarrow>
            split_dir (run_splitting_protocol w dir a) = dir)"
proof (cases "get_pdf_page_count w = 0")
  case True
  then show ?thesis by (simp add: run_splitting_protocol_def)
next
  case False
  show ?thesis
  proof (cases "get_file_size_mb (pdf w)")
    case (Inl e)
    then show ?thesis using False by (simp add: run_splitting_protocol_def)
  next
    case (Inr x)
    have P: "run_splitting_protocol w dir a =
               split_loop w a (get_pdf_page_count w)
                 [calculate_split_strategy x (max_splits a)..max_splits a] dir"
      using False Inr by (simp add: run_splitting_protocol_def Let_def)
    show ?thesis unfolding P by (rule split_loop_failed[OF assms])
  qed
qed

lemma compresses_scenario_A: "compresses scenario_A default_args"
  by (simp add: compresses_def default_args_def aggressive_scenario_A)

lemma compresses_no_tools: "\<not> compresses no_tools a"
  by (simp add: compresses_def aggressive_no_tools)

lemma parts_cut_3_8: "parts_cut 3 8 = 3"
  by (simp add: parts_cut_def Let_def upto_rec1)

lemma parts_cut_4_8: "parts_cut 4 8 = 4"
  by (simp add: parts_cut_def Let_def upto_rec1)

lemma second_part_fails_3:
  "\<not> extraction_fails (qpdf second_part_fails 3) 3 8
   \<and> compression_fails (part_tools second_part_fails 3) default_args 3 8"
  by (simp add: extraction_fails_def compression_fails_def second_part_fails_def Let_def
      parts_cut_3_8 upto_rec1 compresses_scenario_A compresses_no_tools)

lemma second_part_fails_every_attempt:
  "\<forall>k \<in> set [calculate_split_strategy 60 (max_splits default_args)..max_splits default_args].
     attempt_fails second_part_fails default_args k"
proof -
  have ks: "[calculate_split_strategy 60 (max_splits default_args)..max_splits default_args]
              = [3, 4]"
    by (simp add: calculate_split_strategy_def default_args_def Let_def upto_rec1)
  have a3: "attempt_fails second_part_fails default_args 3"
    by (simp add: attempt_fails_def compression_fails_def second_part_fails_def
        parts_cut_3_8 upto_rec1 compresses_no_tools)
  have a4: "attempt_fails second_part_fails default_args 4"
    by (simp add: attempt_fails_def compression_fails_def second_part_fails_def
        parts_cut_4_8 upto_rec1 compresses_no_tools)
  show ?thesis unfolding ks using a3 a4 by simp
qed

subsection \<open>A failed split leaves no part behind\<close>

text \<open>
  C5. An attempt with \<open>k\<close> parts is all or nothing, and whether it fails is decided by
  the tools. For at least one part and one page, \<^verbatim>\<open>try_split_and_compress\<close> returns, and
  it returns true exactly when every page range is extracted and every part that was cut
  compresses. When a page range cannot be extracted no search is run and the output
  directory is untouched. When the ranges are extracted and some part does not compress,
  the number of searches run is the number of parts before the first one that does not
  compress, plus one for that part. Whenever it returns false, every search before the last one run had
  succeeded, and the part files \<^verbatim>\<open><stem>_part<n>.pdf\<close> written for them are gone from
  the output directory, every other part file being as it was. So, from an output
  directory with no part file in it, every failed attempt of \<^verbatim>\<open>run_splitting_protocol\<close>
  leaves the directory as it was before the protocol, and a protocol that does not
  return true leaves it so as well. For a document of at least one page whose size is
  measured, the protocol returns true exactly when some number of parts, from the one
  \<^verbatim>\<open>calculate_split_strategy\<close> gives up to \<^verbatim>\<open>max_splits\<close>, has an attempt that does not
  fail; when every one of them fails, each is tried once, in order, the protocol returns
  false and no part file remains.
\<close>

theorem failed_split_leaves_no_parts:
  "(1 \<le> k \<and> 1 \<le> total_pages \<longrightarrow>
      (\<exists>t. try_split_and_compress sp pt dir a k total_pages = Inr t
          \<and> (ok t \<longleftrightarrow> \<not> extraction_fails sp k total_pages
                        \<and> \<not> compression_fails pt a k total_pages)
          \<and> (extraction_fails sp k total_pages \<longrightarrow> searches t = [] \<and> dir_after t = dir)
          \<and> (\<not> extraction_fails sp k total_pages \<and> compression_fails pt a k total_pages \<longrightarrow>
               length (searches t) =
                 length (takeWhile (\<lambda>n. compresses (pt n) a) [1..parts_cut k total_pages]) + 1)
          \<and> (\<not> ok t \<longrightarrow>
               (\<forall>r \<in> set (butlast (searches t)). \<exists>c st. result r = Succeeded c st)
               \<and> (\<forall>n. dir_after t (Part n) =
                        (if 1 \<le> n \<and> n < int (length (searches t)) then None
                         else dir (Part n))))))
   \<and> (no_part_files dir \<longrightarrow>
        (\<forall>t \<in> set (split_attempts (run_splitting_protocol w dir a)).
            \<not> ok t \<longrightarrow> dir_after t = dir)
        \<and> (split_success (run_splitting_protocol w dir a) \<noteq> Inr True \<longrightarrow>
             split_dir (run_splitting_protocol w dir a) = dir))
   \<and> (no_part_files dir \<and> 1 \<le> get_pdf_page_count w
        \<and> get_file_size_mb (pdf w) = Inr size_mb \<longrightarrow>
        split_success (run_splitting_protocol w dir a) =
          Inr (\<exists>k \<in> set [calculate_split_strategy size_mb (max_splits a)..max_splits a].
                 \<not> attempt_fails w a k)
        \<and> ((\<forall>k \<in> set [calculate_split_strategy size_mb (max_splits a)..max_splits a].
               attempt_fails w a k) \<longrightarrow>
             map parts (split_attempts (run_splitting_protocol w dir a)) =
               [calculate_split_strategy size_mb (max_splits a)..max_splits a]
             \<and> split_dir (run_splitting_protocol w dir a) = dir))"
proof (intro conjI impI)
  assume H: "1 \<le> k \<and> 1 \<le> total_pages"
  from try_split_and_compress_outcome[OF H[THEN conjunct1] H[THEN conjunct2], of sp pt dir a]
  obtain t where
    all: "try_split_and_compress sp pt dir a k total_pages = Inr t
           \<and> parts t = k
           \<and> (ok t \<longleftrightarrow> \<not> extraction_fails sp k total_pages \<and> \<not> compression_fails pt a k total_pages)
           \<and> (ranges t = None \<longleftrightarrow> extraction_fails sp k total_pages)
           \<and> (extraction_fails sp k total_pages \<longrightarrow> searches t = [] \<and> dir_after t = dir)
           \<and> (\<not> extraction_fails sp k total_pages \<and> compression_fails pt a k total_pages \<longrightarrow>
                length (searches t) =
                  length (takeWhile (\<lambda>n. compresses (pt n) a) [1..parts_cut k total_pages]) + 1)
           \<and> (\<forall>rs. ranges t = Some rs \<longrightarrow> int (length rs) = parts_cut k total_pages)" ..
  note t = all[THEN conjunct1]
  note okt = all[THEN conjunct2, THEN conjunct2, THEN conjunct1]
  note ef = all[THEN conjunct2, THEN conjunct2, THEN conjunct2, THEN conjunct2, THEN conjunct1]
  note cf = all[THEN conjunct2, THEN conjunct2, THEN conjunct2, THEN conjunct2, THEN conjunct2,
                THEN conjunct1]
  have gone: "\<not> ok t \<longrightarrow>
               (\<forall>r \<in> set (butlast (searches t)). \<exists>c st. result r = Succeeded c st)
               \<and> (\<forall>n. dir_after t (Part n) =
                        (if 1 \<le> n \<and> n < int (length (searches t)) then None
                         else dir (Part n)))"
  proof
    assume f: "\<not> ok t"
    have a: "\<forall>r \<in> set (butlast (searches t)). \<exists>c st. result r = Succeeded c st"
      using try_split_and_compress_failed(2)[OF t f] by (rule conjunct1)
    have b: "dir_after t (Part n) =
               (if 1 \<le> n \<and> n < int (length (searches t)) then None else dir (Part n))" for n
      using try_split_and_compress_failed(1)[OF t f, of "Part n"] by simp
    show "(\<forall>r \<in> set (butlast (searches t)). \<exists>c st. result r = Succeeded c st)
               \<and> (\<forall>n. dir_after t (Part n) =
                        (if 1 \<le> n \<and> n < int (length (searches t)) then None
                         else dir (Part n)))"
      using a b by (intro conjI allI)
  qed
  show "\<exists>t. try_split_and_compress sp pt dir a k total_pages = Inr t
          \<and> (ok t \<longleftrightarrow> \<not> extraction_fails sp k total_pages
                        \<and> \<not> compression_fails pt a k total_pages)
          \<and> (extraction_fails sp k total_pages \<longrightarrow> searches t = [] \<and> dir_after t = dir)
          \<and> (\<not> extraction_fails sp k total_pages \<and> compression_fails pt a k total_pages \<longrightarrow>
               length (searches t) =
                 length (takeWhile (\<lambda>n. compresses (pt n) a) [1..parts_cut k total_pages]) + 1)
          \<and> (\<not> ok t \<longrightarrow>
               (\<forall>r \<in> set (butlast (searches t)). \<exists>c st. result r = Succeeded c st)
               \<and> (\<forall>n. dir_after t (Part n) =
                        (if 1 \<le> n \<and> n < int (length (searches t)) then None
                         else dir (Part n))))"
    by (intro exI[of _ t] conjI t okt ef cf gone)
next
  assume H: "no_part_files dir"
  show "\<forall>t \<in> set (split_attempts (run_splitting_protocol w dir a)). \<not> ok t \<longrightarrow> dir_after t = dir"
    using run_splitting_protocol_failed[OF H] by (rule conjunct1)
next
  assume H: "no_part_files dir"
    and "split_success (run_splitting_protocol w dir a) \<noteq> Inr True"
  then show "split_dir (run_splitting_protocol w dir a) = dir"
    using run_splitting_protocol_failed[OF H, of w a] by simp
next
  assume H: "no_part_files dir \<and> 1 \<le> get_pdf_page_count w
        \<and> get_file_size_mb (pdf w) = Inr size_mb"
  let ?ks = "[calculate_split_strategy size_mb (max_splits a)..max_splits a]"
  note P = run_splitting_protocol_loop[OF H[THEN conjunct2, THEN conjunct1]
             H[THEN conjunct2, THEN conjunct2], of dir a]
  have ks: "\<forall>k \<in> set ?ks. 1 \<le> k"
    using calculate_split_strategy_ge2[of size_mb "max_splits a"] by auto
  note L = split_loop_outcome[OF H[THEN conjunct1] H[THEN conjunct2, THEN conjunct1] ks, of a]
  show "split_success (run_splitting_protocol w dir a) = Inr (\<exists>k \<in> set ?ks. \<not> attempt_fails w a k)"
    unfolding P by (rule L[THEN conjunct1])
next
  assume H: "no_part_files dir \<and> 1 \<le> get_pdf_page_count w
        \<and> get_file_size_mb (pdf w) = Inr size_mb"
    and F: "\<forall>k \<in> set [calculate_split_strategy size_mb (max_splits a)..max_splits a].
               attempt_fails w a k"
  let ?ks = "[calculate_split_strategy size_mb (max_splits a)..max_splits a]"
  note P = run_splitting_protocol_loop[OF H[THEN conjunct2, THEN conjunct1]
             H[THEN conjunct2, THEN conjunct2], of dir a]
  have ks: "\<forall>k \<in> set ?ks. 1 \<le> k"
    using calculate_split_strategy_ge2[of size_mb "max_splits a"] by auto
  note L = split_loop_outcome[OF H[THEN conjunct1] H[THEN conjunct2, THEN conjunct1] ks, of a]
  show "map parts (split_attempts (run_splitting_protocol w dir a)) = ?ks"
    unfolding P by (rule L[THEN conjunct2, THEN mp, OF F, THEN conjunct1])
next
  assume H: "no_part_files dir \<and> 1 \<le> get_pdf_page_count w
        \<and> get_file_size_mb (pdf w) = Inr size_mb"
    and F: "\<forall>k \<in> set [calculate_split_strategy size_mb (max_splits a)..max_splits a].
               attempt_fails w a k"
  let ?ks = "[calculate_split_strategy size_mb (max_splits a)..max_splits a]"
  note P = run_splitting_protocol_loop[OF H[THEN conjunct2, THEN conjunct1]
             H[THEN conjunct2, THEN conjunct2], of dir a]
  have ks: "\<forall>k \<in> set ?ks. 1 \<le> k"
    using calculate_split_strategy_ge2[of size_mb "max_splits a"] by auto
  note L = split_loop_outcome[OF H[THEN conjunct1] H[THEN conjunct2, THEN conjunct1] ks, of a]
  show "split_dir (run_splitting_protocol w dir a) = dir"
    unfolding P by (rule L[THEN conjunct2, THEN mp, OF F, THEN conjunct2])
qed

theorem failed_split_leaves_no_parts_witness:
  "no_part_files Map.empty
   \<and> \<not> extraction_fails (qpdf second_part_fails 3) 3 8
   \<and> compression_fails (part_tools second_part_fails 3) default_args 3 8
   \<and> (\<exists>t. try_split_and_compress (qpdf second_part_fails 3) (part_tools second_part_fails 3)
            Map.empty default_args 3 8 = Inr t
         \<and> \<not> ok t
         \<and> length (searches t) = 2
         \<and> dir_after t (Part 1) = None)
   \<and> get_file_size_mb (pdf second_part_fails) = Inr 60
   \<and> split_success (run_splitting_protocol second_part_fails Map.empty default_args) = Inr False
   \<and> map parts (split_attempts (run_splitting_protocol second_part_fails Map.empty default_args))
       = [3, 4]
   \<and> split_dir (run_splitting_protocol second_part_fails Map.empty default_args) = Map.empty"
proof -
  let ?P = "run_splitting_protocol second_part_fails Map.empty default_args"
  let ?sp = "qpdf second_part_fails 3"
  let ?pt = "part_tools second_part_fails 3"
  have H: "no_part_files Map.empty" by (simp add: no_part_files_def)
  have pc: "1 \<le> get_pdf_page_count second_part_fails" by (simp add: second_part_fails_def)
  have sz: "get_file_size_mb (pdf second_part_fails) = Inr 60"
    by (simp add: second_part_fails_def get_file_size_mb_cases)
  have k: "(1::int) \<le> 3 \<and> (1::int) \<le> 8" by simp
  note nef = second_part_fails_3[THEN conjunct1]
  note cf = second_part_fails_3[THEN conjunct2]
  note inst = failed_split_leaves_no_parts[where dir=Map.empty and w=second_part_fails
      and a=default_args and sp="?sp" and pt="?pt" and k=3 and total_pages=8 and size_mb=60]
  from inst[THEN conjunct1, THEN mp, OF k] obtain t where
    all: "try_split_and_compress ?sp ?pt Map.empty default_args 3 8 = Inr t
          \<and> (ok t \<longleftrightarrow> \<not> extraction_fails ?sp 3 8 \<and> \<not> compression_fails ?pt default_args 3 8)
          \<and> (extraction_fails ?sp 3 8 \<longrightarrow> searches t = [] \<and> dir_after t = Map.empty)
          \<and> (\<not> extraction_fails ?sp 3 8 \<and> compression_fails ?pt default_args 3 8 \<longrightarrow>
               length (searches t) =
                 length (takeWhile (\<lambda>n. compresses (?pt n) default_args) [1..parts_cut 3 8]) + 1)
          \<and> (\<not> ok t \<longrightarrow>
               (\<forall>r \<in> set (butlast (searches t)). \<exists>c st. result r = Succeeded c st)
               \<and> (\<forall>n. dir_after t (Part n) =
                        (if 1 \<le> n \<and> n < int (length (searches t)) then None
                         else Map.empty (Part n))))" ..
  note t = all[THEN conjunct1]
  note okt = all[THEN conjunct2, THEN conjunct1]
  note cnt = all[THEN conjunct2, THEN conjunct2, THEN conjunct2, THEN conjunct1, THEN mp,
                 OF conjI[OF nef cf]]
  note gone = all[THEN conjunct2, THEN conjunct2, THEN conjunct2, THEN conjunct2]
  have f: "\<not> ok t" using okt cf by simp
  have tw: "takeWhile (\<lambda>n. compresses (?pt n) default_args) [1..parts_cut 3 8] = [1]"
    by (simp add: parts_cut_3_8 upto_rec1 second_part_fails_def compresses_scenario_A
        compresses_no_tools)
  have len: "length (searches t) = 2" using cnt unfolding tw by simp
  note g1 = gone[THEN mp, OF f, THEN conjunct2, THEN spec, of 1]
  have one: "dir_after t (Part 1) = None" using g1 unfolding len by simp
  have ex: "\<exists>t. try_split_and_compress ?sp ?pt Map.empty default_args 3 8 = Inr t
         \<and> \<not> ok t \<and> length (searches t) = 2 \<and> dir_after t (Part 1) = None"
    by (intro exI[of _ t] conjI t f len one)
  note three = inst[THEN conjunct2, THEN conjunct2, THEN mp, OF conjI[OF H conjI[OF pc sz]]]
  have ks: "[calculate_split_strategy 60 (max_splits default_args)..max_splits default_args]
              = [3, 4]"
    by (simp add: calculate_split_strategy_def default_args_def Let_def upto_rec1)
  have ev: "split_success ?P = Inr False"
    using three[THEN conjunct1] second_part_fails_every_attempt by simp
  note rest = three[THEN conjunct2, THEN mp, OF second_part_fails_every_attempt]
  have ps: "map parts (split_attempts ?P) = [3, 4]"
    using rest[THEN conjunct1] unfolding ks .
  note sd = rest[THEN conjunct2]
  show ?thesis by (intro conjI H nef cf ex sz ev ps sd)
qed

section \<open>The temporary directory after a success\<close>

lemma scenario_A_first_within_6:
  "within_target (reconstruct scenario_A (params_sequence tier_1 ! 0) First) 6"
  by (simp add: scenario_A_reconstruct within_target_def get_file_size_mb_cases)

text \<open>
  C8. With \<^verbatim>\<open>keep_temp_on_failure\<close> set, the \<^verbatim>\<open>finally\<close> blocks keep the temporary
  directory whatever the outcome: a run of \<^verbatim>\<open>run_iterative_compression\<close> that succeeds on
  its first attempt, a run of \<^verbatim>\<open>run_aggressive_compression\<close> that succeeds, and a call of
  \<^verbatim>\<open>try_split_and_compress\<close> whose two parts both compress, each leave their temporary
  directory on disk.
\<close>

theorem temp_dir_kept_after_success:
  "result (run_iterative_compression scenario_A (File 8388608) Compressed Map.empty 6 True)
     = Succeeded First (File 6291456)
   \<and> temp_dir (run_iterative_compression scenario_A (File 8388608) Compressed Map.empty 6 True)
     = Kept
   \<and> result (run_aggressive_compression scenario_A (PartCompressed 1) Map.empty 2 True)
     = Succeeded (Numbered 0) (File 1572864)
   \<and> temp_dir (run_aggressive_compression scenario_A (PartCompressed 1) Map.empty 2 True) = Kept
   \<and> (case try_split_and_compress (\<lambda>_ _ _. True) (\<lambda>_. scenario_A) Map.empty
              (default_args\<lparr>keep_temp_on_failure := True\<rparr>) 2 4 of
         Inl e \<Rightarrow> False
       | Inr t \<Rightarrow> ok t \<and> split_temp_dir t = Kept)"
proof -
  have a: "run_iterative_compression scenario_A (File 8388608) Compressed Map.empty 6 True =
      \<lparr>result = Succeeded First (File 6291456), calls = [(params_sequence tier_1 ! 0, First)],
       temp_dir = Kept, output_dir = [Compressed \<mapsto> 6291456]\<rparr>"
    unfolding run_iterative_compression_begins[OF scenario_A_begins]
      attempts_first_within[where rp="reconstruct scenario_A" and seq="params_sequence tier_1",
        OF scenario_A_first_within_6]
    by (simp add: scenario_A_reconstruct output_state_def save_result_def copy_file_def release_def)
  have b: "case try_split_and_compress (\<lambda>_ _ _. True) (\<lambda>_. scenario_A) Map.empty
              (default_args\<lparr>keep_temp_on_failure := True\<rparr>) 2 4 of
         Inl e \<Rightarrow> False
       | Inr t \<Rightarrow> ok t \<and> split_temp_dir t = Kept"
    by (simp add: default_args_def Let_def upto_rec1 try_split_and_compress_def
        aggressive_scenario_A copy_file_def unlink_if_exists_def release_def)
  show ?thesis using a b by (simp add: aggressive_scenario_A release_def)
qed

section \<open>The size check of \<^verbatim>\<open>process_file\<close>\<close>

lemma process_file_searches:
  assumes "get_file_size_mb (pdf w) = Inr x" and "\<not> x < target_size a"
  shows "search (process_file w dir a) =
           Some (run_iterative_compression (document_tools w) (pdf w) Compressed dir
                   (target_size a) (keep_temp_on_failure a))"
  using assms
  by (simp add: process_file_def Let_def split: search_result.split)

text \<open>
  C9, as stated, fails for a document whose size equals the target: the check of
  \<^verbatim>\<open>process_file\<close> is \<^verbatim>\<open>original_size_mb < args.target_size\<close>, so a document of
  exactly 2 MB with a target of 2 MB is handed to \<^verbatim>\<open>run_iterative_compression\<close>.
\<close>

theorem size_equal_to_target_is_searched:
  "get_file_size_mb (pdf exactly_at_target) = Inr 2
   \<and> target_size default_args = 2
   \<and> search (process_file exactly_at_target Map.empty default_args) \<noteq> None"
proof -
  have s: "get_file_size_mb (pdf exactly_at_target) = Inr 2"
    by (simp add: exactly_at_target_def get_file_size_mb_cases)
  have t: "target_size default_args = 2" by (simp add: default_args_def)
  have "\<not> (2::real) < target_size default_args" using t by simp
  from process_file_searches[OF s this] show ?thesis using s t by simp
qed

text \<open>
  C9, amended. For a document whose measured size is strictly below the target,
  \<^verbatim>\<open>process_file\<close> returns true without calling \<^verbatim>\<open>run_iterative_compression\<close> or
  \<^verbatim>\<open>run_splitting_protocol\<close>; the output directory is unchanged, or holds a copy of the
  original when \<^verbatim>\<open>copy_small_files\<close> is set.
\<close>

theorem small_document_skips_search:
  assumes "get_file_size_mb (pdf w) = Inr original_size_mb"
    and "original_size_mb < target_size a"
  shows "process_file w dir a =
           \<lparr>returned = True, search = None, splitting = None,
            final_dir = (if copy_small_files a then copy_file (pdf w) Original dir else dir)\<rparr>"
  using assms by (simp add: process_file_def)

theorem small_document_skips_search_witness:
  "get_file_size_mb (pdf small_document) = Inr 1
   \<and> (1::real) < target_size (default_args\<lparr>copy_small_files := True\<rparr>)
   \<and> process_file small_document Map.empty (default_args\<lparr>copy_small_files := True\<rparr>) =
        \<lparr>returned = True, search = None, splitting = None, final_dir = [Original \<mapsto> 1048576]\<rparr>"
proof -
  have s: "get_file_size_mb (pdf small_document) = Inr 1"
    by (simp add: small_document_def get_file_size_mb_cases)
  have t: "(1::real) < target_size (default_args\<lparr>copy_small_files := True\<rparr>)"
    by (simp add: default_args_def)
  show ?thesis
    using small_document_skips_search[OF s t, of Map.empty] s t
    by (simp add: default_args_def small_document_def copy_file_def)
qed

section \<open>The number of parts to start with\<close>

text \<open>
  C7. For a document of positive size and a maximum of at least 2 parts,
  \<^verbatim>\<open>calculate_split_strategy\<close> returns \<open>ceil(size / 25)\<close> clamped into the interval from 2
  to the maximum: the minimum of the maximum and the ceiling, raised to 2 when it is
  below 2.
\<close>

theorem calculate_split_strategy_clamped:
  assumes "0 < total_size_mb" and "2 \<le> limit"
  shows "calculate_split_strategy total_size_mb limit
           = max 2 (min limit \<lceil>total_size_mb / 25\<rceil>)
       \<and> calculate_split_strategy total_size_mb limit
           = min limit (max 2 \<lceil>total_size_mb / 25\<rceil>)
       \<and> 2 \<le> calculate_split_strategy total_size_mb limit
       \<and> calculate_split_strategy total_size_mb limit \<le> limit"
proof -
  define c where "c = \<lceil>total_size_mb / 25\<rceil>"
  have "calculate_split_strategy total_size_mb limit
          = (if min limit c < 2 then 2 else min limit c)"
    unfolding calculate_split_strategy_def Let_def c_def by (rule refl)
  with assms(2) show ?thesis
    unfolding c_def[symmetric] by auto
qed

theorem calculate_split_strategy_clamped_witness:
  "(0::real) < 60 \<and> (2::int) \<le> 4 \<and> calculate_split_strategy 60 4 = 3
     \<and> max 2 (min 4 \<lceil>(60::real) / 25\<rceil>) = 3"
  using calculate_split_strategy_clamped[of 60 4] by simp

section \<open>The page ranges of a split\<close>

lemma split_phase_ranges:
  assumes "1 \<le> pps" "tp \<le> (j + 1) * pps" "0 \<le> i"
    and "split_phase sp pps tp [i..j] = Some rs"
  shows "concat (map (\<lambda>(s, e). [s..e]) rs) = [i * pps + 1..tp]
       \<and> (\<forall>(s, e) \<in> set rs. s \<le> e)
       \<and> rs = map (\<lambda>n. (n * pps + 1, min ((n + 1) * pps) tp)) [i..i + int (length rs) - 1]"
  using assms
proof (induction i j arbitrary: rs rule: upto.induct)
  case (1 i j)
  show ?case
  proof (cases "i \<le> j")
    case False
    then have "rs = []" using "1.prems"(4) by simp
    moreover have "tp \<le> i * pps"
    proof -
      have "(j + 1) * pps \<le> i * pps" using False "1.prems"(1) by (intro mult_right_mono) auto
      then show ?thesis using "1.prems"(2) by linarith
    qed
    ultimately show ?thesis by simp
  next
    case True
    then have unf: "[i..j] = i # [i + 1..j]" by (simp add: upto_rec1)
    show ?thesis
    proof (cases "i * pps + 1 > tp")
      case True
      then have "rs = []" using "1.prems"(4) unf by simp
      then show ?thesis using True by simp
    next
      case False
      let ?e = "min ((i + 1) * pps) tp"
      from "1.prems"(4) unf False obtain rs' where
        rs': "split_phase sp pps tp [i + 1..j] = Some rs'" and rs: "rs = (i * pps + 1, ?e) # rs'"
        by (auto simp: Let_def split: if_splits)
      have IH: "concat (map (\<lambda>(s, e). [s..e]) rs') = [(i + 1) * pps + 1..tp]
       \<and> (\<forall>(s, e) \<in> set rs'. s \<le> e)
       \<and> rs' = map (\<lambda>n. (n * pps + 1, min ((n + 1) * pps) tp)) [i + 1..i + 1 + int (length rs') - 1]"
        using "1.IH"[OF True "1.prems"(1) "1.prems"(2) _ rs'] "1.prems"(3) by simp
      have le: "i * pps + 1 \<le> ?e"
      proof -
        have "(i + 1) * pps = i * pps + pps" by (simp add: algebra_simps)
        then show ?thesis using "1.prems"(1) False by simp
      qed
      have cat: "[i * pps + 1..?e] @ [(i + 1) * pps + 1..tp] = [i * pps + 1..tp]"
      proof (cases "(i + 1) * pps \<le> tp")
        case True
        then have "?e = (i + 1) * pps" by simp
        then show ?thesis using upto_split2[of "i * pps + 1" "(i + 1) * pps" tp] le True by simp
      next
        case False
        then show ?thesis by simp
      qed
      have idx: "[i..i + int (length rs) - 1] = i # [i + 1..i + 1 + int (length rs') - 1]"
        using rs by (simp add: upto_rec1)
      show ?thesis using IH le cat rs idx by simp
    qed
  qed
qed

lemma split_ranges_properties:
  assumes "1 \<le> total_pages" and "1 \<le> k"
    and "try_split_and_compress sp pt dir a k total_pages = Inr t"
    and "ranges t = Some rs"
  shows "rs = map (\<lambda>i. (i * \<lceil>real_of_int total_pages / real_of_int k\<rceil> + 1,
                        min ((i + 1) * \<lceil>real_of_int total_pages / real_of_int k\<rceil>) total_pages))
                [0..int (length rs) - 1]
       \<and> (\<forall>(s, e) \<in> set rs. s \<le> e)
       \<and> (\<forall>n. Suc n < length rs \<longrightarrow> fst (rs ! Suc n) = snd (rs ! n) + 1)
       \<and> concat (map (\<lambda>(s, e). [s..e]) rs) = [1..total_pages]"
proof -
  define pps where "pps = \<lceil>real_of_int total_pages / real_of_int k\<rceil>"
  let ?f = "\<lambda>i. (i * pps + 1, min ((i + 1) * pps) total_pages)"
  have pps: "1 \<le> pps" "total_pages \<le> k * pps"
    using pages_per_split_bounds[OF assms(1,2)] by (simp_all add: pps_def)
  have sp: "split_phase sp pps total_pages [0..k - 1] = Some rs"
    using assms(2,3,4)
    by (auto simp: try_split_and_compress_def Let_def pps_def split: option.splits prod.splits)
  have main: "concat (map (\<lambda>(s, e). [s..e]) rs) = [1..total_pages]
       \<and> (\<forall>(s, e) \<in> set rs. s \<le> e)
       \<and> rs = map ?f [0..int (length rs) - 1]"
    using split_phase_ranges[OF pps(1) _ _ sp] pps(2) by simp
  then have form: "rs = map ?f [0..int (length rs) - 1]" and ne: "\<forall>(s, e) \<in> set rs. s \<le> e"
    by blast+
  have nth: "rs ! n = ?f (int n)" if "n < length rs" for n
  proof -
    have "rs ! n = map ?f [0..int (length rs) - 1] ! n" using form by simp
    also have "\<dots> = ?f ([0..int (length rs) - 1] ! n)" using that by (intro nth_map) simp
    also have "[0..int (length rs) - 1] ! n = int n" using that nth_upto[of 0 n "int (length rs) - 1"] by simp
    finally show ?thesis .
  qed
  have contiguous: "fst (rs ! Suc n) = snd (rs ! n) + 1" if "Suc n < length rs" for n
  proof -
    have a: "rs ! Suc n = ?f (int n + 1)" using nth[OF that] by (simp add: add.commute)
    have b: "rs ! n = ?f (int n)" using nth[of n] that by simp
    have "rs ! Suc n \<in> set rs" using that by simp
    then have "fst (rs ! Suc n) \<le> snd (rs ! Suc n)" using ne by (auto simp: case_prod_beta)
    then have "(int n + 1) * pps + 1 \<le> total_pages" using a by simp
    then have "min ((int n + 1) * pps) total_pages = (int n + 1) * pps" by simp
    then show ?thesis using a b by simp
  qed
  show ?thesis using main contiguous unfolding pps_def by blast
qed

lemma parts_cut_4_5: "parts_cut 4 5 = 3"
  by (simp add: parts_cut_def Let_def upto_rec1)

lemma no_extraction_fails: "\<not> extraction_fails (\<lambda>_ _ _. True) k total_pages"
  by (simp add: extraction_fails_def Let_def)

text \<open>
  C6. For a document of at least one page and at least one part,
  \<^verbatim>\<open>try_split_and_compress\<close> returns, and it cuts page ranges unless one of them cannot
  be extracted: the ranges are missing exactly when a call of \<^verbatim>\<open>split_pdf\<close> for a range
  that starts inside the document returns false. The ranges cut are, in order,
  \<open>(i * p + 1, min ((i + 1) * p) total)\<close> for \<open>p = ceil(total / k)\<close> and
  \<open>i = 0, 1, ...\<close> as long as the first page is in the document, and there are as many
  as there are such \<open>i\<close> below \<open>k\<close>; each range is non-empty, each starts on the page
  after the end of the one before, and read in order they list the pages 1 to \<open>total\<close>,
  each once.
\<close>

theorem split_ranges_cover_pages:
  assumes "1 \<le> total_pages" and "1 \<le> k"
  shows "\<exists>t. try_split_and_compress sp pt dir a k total_pages = Inr t
           \<and> (ranges t = None \<longleftrightarrow> extraction_fails sp k total_pages)
           \<and> (\<forall>rs. ranges t = Some rs \<longrightarrow>
                  rs = map (\<lambda>i. (i * \<lceil>real_of_int total_pages / real_of_int k\<rceil> + 1,
                                 min ((i + 1) * \<lceil>real_of_int total_pages / real_of_int k\<rceil>)
                                   total_pages))
                         [0..int (length rs) - 1]
                  \<and> int (length rs) = parts_cut k total_pages
                  \<and> (\<forall>(s, e) \<in> set rs. s \<le> e)
                  \<and> (\<forall>n. Suc n < length rs \<longrightarrow> fst (rs ! Suc n) = snd (rs ! n) + 1)
                  \<and> concat (map (\<lambda>(s, e). [s..e]) rs) = [1..total_pages])"
proof -
  from try_split_and_compress_outcome[OF assms(2,1), of sp pt dir a] obtain t where
    all: "try_split_and_compress sp pt dir a k total_pages = Inr t
           \<and> parts t = k
           \<and> (ok t \<longleftrightarrow> \<not> extraction_fails sp k total_pages \<and> \<not> compression_fails pt a k total_pages)
           \<and> (ranges t = None \<longleftrightarrow> extraction_fails sp k total_pages)
           \<and> (extraction_fails sp k total_pages \<longrightarrow> searches t = [] \<and> dir_after t = dir)
           \<and> (\<not> extraction_fails sp k total_pages \<and> compression_fails pt a k total_pages \<longrightarrow>
                length (searches t) =
                  length (takeWhile (\<lambda>n. compresses (pt n) a) [1..parts_cut k total_pages]) + 1)
           \<and> (\<forall>rs. ranges t = Some rs \<longrightarrow> int (length rs) = parts_cut k total_pages)" ..
  note t = all[THEN conjunct1]
  note none = all[THEN conjunct2, THEN conjunct2, THEN conjunct2, THEN conjunct1]
  note len = all[THEN conjunct2, THEN conjunct2, THEN conjunct2, THEN conjunct2, THEN conjunct2,
                 THEN conjunct2]
  have "rs = map (\<lambda>i. (i * \<lceil>real_of_int total_pages / real_of_int k\<rceil> + 1,
                                 min ((i + 1) * \<lceil>real_of_int total_pages / real_of_int k\<rceil>)
                                   total_pages))
                         [0..int (length rs) - 1]
                  \<and> int (length rs) = parts_cut k total_pages
                  \<and> (\<forall>(s, e) \<in> set rs. s \<le> e)
                  \<and> (\<forall>n. Suc n < length rs \<longrightarrow> fst (rs ! Suc n) = snd (rs ! n) + 1)
                  \<and> concat (map (\<lambda>(s, e). [s..e]) rs) = [1..total_pages]"
    if "ranges t = Some rs" for rs
  proof -
    note P = split_ranges_properties[OF assms t that]
    note L = len[THEN spec, THEN mp, OF that]
    show ?thesis
      by (intro conjI P[THEN conjunct1] L P[THEN conjunct2, THEN conjunct1]
            P[THEN conjunct2, THEN conjunct2, THEN conjunct1]
            P[THEN conjunct2, THEN conjunct2, THEN conjunct2])
  qed
  then have props: "\<forall>rs. ranges t = Some rs \<longrightarrow>
                  rs = map (\<lambda>i. (i * \<lceil>real_of_int total_pages / real_of_int k\<rceil> + 1,
                                 min ((i + 1) * \<lceil>real_of_int total_pages / real_of_int k\<rceil>)
                                   total_pages))
                         [0..int (length rs) - 1]
                  \<and> int (length rs) = parts_cut k total_pages
                  \<and> (\<forall>(s, e) \<in> set rs. s \<le> e)
                  \<and> (\<forall>n. Suc n < length rs \<longrightarrow> fst (rs ! Suc n) = snd (rs ! n) + 1)
                  \<and> concat (map (\<lambda>(s, e). [s..e]) rs) = [1..total_pages]"
    by (intro allI impI)
  show ?thesis by (intro exI[of _ t] conjI t none props)
qed

theorem split_ranges_cover_pages_witness:
  "(1::int) \<le> 5 \<and> (1::int) \<le> 4
   \<and> \<not> extraction_fails (\<lambda>_ _ _. True) 4 5
   \<and> (\<exists>t. try_split_and_compress (\<lambda>_ _ _. True) (\<lambda>_. no_tools) Map.empty default_args 4 5 = Inr t
          \<and> ranges t = Some [(1, 2), (3, 4), (5, 5)])
   \<and> concat (map (\<lambda>(s, e). [s..e]) [(1, 2), (3, 4), (5, 5 :: int)]) = [1..5]"
proof -
  have one: "(1::int) \<le> 5" and two: "(1::int) \<le> 4" by simp_all
  from split_ranges_cover_pages[OF one two, of "\<lambda>_ _ _. True" "\<lambda>_. no_tools" Map.empty default_args]
  obtain t where
    all: "try_split_and_compress (\<lambda>_ _ _. True) (\<lambda>_. no_tools) Map.empty default_args 4 5 = Inr t
      \<and> (ranges t = None \<longleftrightarrow> extraction_fails (\<lambda>_ _ _. True) 4 5)
      \<and> (\<forall>rs. ranges t = Some rs \<longrightarrow>
                  rs = map (\<lambda>i. (i * \<lceil>real_of_int 5 / real_of_int 4\<rceil> + 1,
                                 min ((i + 1) * \<lceil>real_of_int 5 / real_of_int 4\<rceil>) 5))
                         [0..int (length rs) - 1]
                  \<and> int (length rs) = parts_cut 4 5
                  \<and> (\<forall>(s, e) \<in> set rs. s \<le> e)
                  \<and> (\<forall>n. Suc n < length rs \<longrightarrow> fst (rs ! Suc n) = snd (rs ! n) + 1)
                  \<and> concat (map (\<lambda>(s, e). [s..e]) rs) = [1..5])" ..
  note t = all[THEN conjunct1]
  note none = all[THEN conjunct2, THEN conjunct1]
  note props = all[THEN conjunct2, THEN conjunct2]
  have "ranges t \<noteq> None" using none no_extraction_fails by simp
  then obtain rs where rs: "ranges t = Some rs" by auto
  have len: "int (length rs) = 3" using props rs parts_cut_4_5 by simp
  have form: "rs = map (\<lambda>i. (i * \<lceil>real_of_int 5 / real_of_int 4\<rceil> + 1,
                                 min ((i + 1) * \<lceil>real_of_int 5 / real_of_int 4\<rceil>) 5))
                         [0..int (length rs) - 1]"
    using props rs by blast
  have c: "\<lceil>real_of_int 5 / real_of_int 4\<rceil> = (2::int)" by simp
  have val: "rs = [(1, 2), (3, 4), (5, 5)]"
    using form unfolding len c by (simp add: upto_rec1)
  have cat: "concat (map (\<lambda>(s, e). [s..e]) rs) = [1..5]" using props rs by blast
  have ex: "\<exists>t. try_split_and_compress (\<lambda>_ _ _. True) (\<lambda>_. no_tools) Map.empty default_args 4 5 = Inr t
          \<and> ranges t = Some [(1, 2), (3, 4), (5, 5)]"
    using t rs val by blast
  show ?thesis using one two no_extraction_fails ex cat[unfolded val] by blast
qed

end
